theory Spec2Isabelle
  imports Complex_Main
begin

section \<open>PaceForge workout generator: data model\<close>

text \<open>
  The embedding follows \<^verbatim>\<open>src/src/generator.ts\<close>. A TypeScript \<^verbatim>\<open>number\<close> that
  carries a speed, a duration or an intensity is a \<^typ>\<open>real\<close>: the model has the order
  and the arithmetic of the real numbers, and neither \<^verbatim>\<open>NaN\<close>, an infinity nor the rounding
  of doubles. That holds of the two options that bound loops too (\<^verbatim>\<open>repeats\<close>,
  \<^verbatim>\<open>steps\<close>): a loop \<^verbatim>\<open>for (let i = 0; i < n; i++)\<close> runs for \<open>i = 0, ..., \<lceil>n\<rceil> - 1\<close>.
  A product such as \<^verbatim>\<open>max * intensity\<close> is the real product. Where the real product lands
  exactly on a device speed the double product can fall just below it (speeds
  \<open>1, 2.1, 3\<close>: \<^verbatim>\<open>3 * 0.7\<close> is \<^verbatim>\<open>2.0999999999999996\<close>), and the source then quantizes one
  step lower than the model.
  An optional field is an \<^typ>\<open>'a option\<close>, \<^verbatim>\<open>undefined\<close> being \<^const>\<open>None\<close>. A thrown
  \<^verbatim>\<open>Error\<close> is the left injection of a sum.

  The type \<^verbatim>\<open>Segment\<close> has a parameter for its speed. A segment of a finished workout
  has a speed, a \<^typ>\<open>real\<close>. A raw segment, as a plan builder hands it to
  \<^verbatim>\<open>applySafety\<close>, can carry \<^verbatim>\<open>undefined\<close> where the source reads past the end of an
  array (the ladder of \<^verbatim>\<open>makeProgression\<close>), so its speed is a \<^typ>\<open>real option\<close>.

  Field names that occur in more than one source type carry a prefix here
  (\<^verbatim>\<open>w_name\<close>, \<^verbatim>\<open>i_name\<close>, ...), since a record field is a constant of the theory.
\<close>

datatype Units = mph | kph

record DeviceProfile =
  name :: string
  units :: Units
  speeds :: "real list"
  inclines :: "real list option"
  minSegmentSec :: "real option"
  rampLimitPerChange :: "real option"

record 'v Segment =
  secs :: real
  speed :: 'v
  incline :: "real option"
  cue :: "string option"

type_synonym RawSegment = "real option Segment"

record Workout =
  w_name :: string
  w_units :: Units
  totalSecs :: real
  segments :: "real Segment list"

record IntervalPlanOpts =
  i_name :: "string option"
  warmupMins :: "real option"
  cooldownMins :: "real option"
  repeats :: "real option"
  hardSecs :: "real option"
  easySecs :: "real option"
  hardIntensity :: "real option"
  easyIntensity :: "real option"

record SteadyOpts =
  s_name :: "string option"
  s_totalMins :: "real option"
  intensity :: "real option"
  addStrides :: "bool option"

record ProgressionOpts =
  p_name :: "string option"
  p_totalMins :: "real option"
  steps :: "real option"
  topIntensity :: "real option"

text \<open>The only error the generator raises: \<^verbatim>\<open>Device profile speeds cannot be empty.\<close>\<close>

datatype error = EmptyDomain

section \<open>Quantizer\<close>

text \<open>
  The \<^verbatim>\<open>for (const value of allowed)\<close> loop of \<^verbatim>\<open>quantizeDown\<close>, with the running
  \<^verbatim>\<open>candidate\<close> as an argument; \<^verbatim>\<open>break\<close> returns the candidate reached so far.
\<close>

fun scanDown :: "real list \<Rightarrow> real \<Rightarrow> real \<Rightarrow> real" where
  "scanDown [] target candidate = candidate"
| "scanDown (v # rest) target candidate =
     (if v \<le> target then scanDown rest target v else candidate)"

definition quantizeDown :: "real list \<Rightarrow> real \<Rightarrow> error + real" where
  "quantizeDown allowed target =
     (case allowed of
        [] \<Rightarrow> Inl EmptyDomain
      | a0 # _ \<Rightarrow> Inr (scanDown allowed target a0))"

text \<open>
  \<^verbatim>\<open>quantizeDown\<close> called with a target that may be \<^verbatim>\<open>undefined\<close>: every comparison
  \<^verbatim>\<open>value <= undefined\<close> is false, so the loop breaks at the first value and the candidate
  stays \<^verbatim>\<open>allowed[0]\<close>.
\<close>

definition quantizeDownU :: "real list \<Rightarrow> real option \<Rightarrow> error + real" where
  "quantizeDownU allowed target =
     (case target of
        Some t \<Rightarrow> quantizeDown allowed t
      | None \<Rightarrow> (case allowed of [] \<Rightarrow> Inl EmptyDomain | a0 # _ \<Rightarrow> Inr a0))"

definition clamp :: "real \<Rightarrow> real \<Rightarrow> real \<Rightarrow> real" where
  "clamp n lo hi = max lo (min hi n)"

definition sortSpeeds :: "real list \<Rightarrow> real list" where
  "sortSpeeds xs = sort xs"


section \<open>Ramp limiter, segment merger and safety pipeline\<close>

text \<open>
  \<^verbatim>\<open>mergeCue(previous, next)\<close>. A JavaScript string is truthy when it is defined and
  not empty; \<^verbatim>\<open>previous ?? next\<close> only asks whether \<^verbatim>\<open>previous\<close> is defined.
\<close>

definition truthy :: "string option \<Rightarrow> bool" where
  "truthy c = (case c of None \<Rightarrow> False | Some s \<Rightarrow> s \<noteq> [])"

definition mergeCue :: "string option \<Rightarrow> string option \<Rightarrow> string option" where
  "mergeCue previous next =
     (if truthy previous \<and> truthy next \<and> previous \<noteq> next
      then Some (the previous @ '' | '' @ the next)
      else (case previous of None \<Rightarrow> next | Some s \<Rightarrow> Some s))"

text \<open>\<^verbatim>\<open>cue ? `${cue} (clamped)` : '(clamped)'\<close>\<close>

definition clampedCue :: "string option \<Rightarrow> string option" where
  "clampedCue c = (if truthy c then Some (the c @ '' (clamped)'') else Some ''(clamped)'')"

text \<open>
  The inner loop of the ramp limiter: the candidate closest to \<^verbatim>\<open>baseSpeed\<close>, the first
  one found winning a tie.
\<close>

fun pickBest :: "real list \<Rightarrow> real \<Rightarrow> real \<Rightarrow> real \<Rightarrow> real" where
  "pickBest [] baseSpeed best bestDiff = best"
| "pickBest (candidate # rest) baseSpeed best bestDiff =
     (let diff = \<bar>candidate - baseSpeed\<bar> in
      if diff < bestDiff then pickBest rest baseSpeed candidate diff
      else pickBest rest baseSpeed best bestDiff)"

definition rampCandidates :: "real list \<Rightarrow> real \<Rightarrow> real \<Rightarrow> real list" where
  "rampCandidates allowed prevSpeed rampLimit =
     filter (\<lambda>value. \<bar>value - prevSpeed\<bar> \<le> rampLimit) allowed"

text \<open>
  \<^verbatim>\<open>{ ...segment, speed, cue }\<close>: the segment pushed onto \<^verbatim>\<open>constrained\<close>.
\<close>

definition emit :: "RawSegment \<Rightarrow> real \<Rightarrow> string option \<Rightarrow> real Segment" where
  "emit segment v c = \<lparr>secs = secs segment, speed = v, incline = incline segment, cue = c\<rparr>"

text \<open>
  The body of the first loop of \<^verbatim>\<open>applySafety\<close>: the segment pushed onto
  \<^verbatim>\<open>constrained\<close> for one raw segment, or the error of \<^verbatim>\<open>quantizeDown\<close>.
\<close>

definition constrainSegment ::
  "real list \<Rightarrow> real option \<Rightarrow> real Segment list \<Rightarrow> RawSegment \<Rightarrow> error + real Segment" where
  "constrainSegment allowed rampLimit constrained segment =
     (case quantizeDownU allowed (speed segment) of
        Inl e \<Rightarrow> Inl e
      | Inr baseSpeed \<Rightarrow>
          Inr (case rampLimit of
                 None \<Rightarrow> emit segment baseSpeed (cue segment)
               | Some r \<Rightarrow>
                   if constrained = [] then emit segment baseSpeed (cue segment)
                   else
                     let prevSpeed = speed (last constrained) in
                     if \<bar>baseSpeed - prevSpeed\<bar> > r then
                       (case rampCandidates allowed prevSpeed r of
                          c0 # cs \<Rightarrow>
                            let best = pickBest (c0 # cs) baseSpeed c0 \<bar>c0 - baseSpeed\<bar> in
                            if best \<noteq> baseSpeed
                            then emit segment best (clampedCue (cue segment))
                            else emit segment baseSpeed (cue segment)
                        | [] \<Rightarrow>
                            if prevSpeed \<noteq> baseSpeed
                            then emit segment prevSpeed (clampedCue (cue segment))
                            else emit segment baseSpeed (cue segment))
                     else emit segment baseSpeed (cue segment)))"

fun constrainAll ::
  "real list \<Rightarrow> real option \<Rightarrow> real Segment list \<Rightarrow> RawSegment list
     \<Rightarrow> error + real Segment list" where
  "constrainAll allowed rampLimit constrained [] = Inr constrained"
| "constrainAll allowed rampLimit constrained (segment # rest) =
     (case constrainSegment allowed rampLimit constrained segment of
        Inl e \<Rightarrow> Inl e
      | Inr s \<Rightarrow> constrainAll allowed rampLimit (constrained @ [s]) rest)"

text \<open>The second loop of \<^verbatim>\<open>applySafety\<close>, with the accumulator \<^verbatim>\<open>merged\<close>.\<close>

fun mergeAll :: "real \<Rightarrow> real Segment list \<Rightarrow> real Segment list \<Rightarrow> real Segment list" where
  "mergeAll minSeg merged [] = merged"
| "mergeAll minSeg merged (segment # rest) =
     (if merged \<noteq> [] \<and> speed (last merged) = speed segment \<and>
         (secs (last merged) < minSeg \<or> secs segment < minSeg)
      then mergeAll minSeg
             (merged[length merged - 1 :=
                (last merged)\<lparr>secs := secs (last merged) + secs segment,
                               cue := mergeCue (cue (last merged)) (cue segment)\<rparr>])
             rest
      else mergeAll minSeg (merged @ [segment]) rest)"

definition applySafety :: "DeviceProfile \<Rightarrow> RawSegment list \<Rightarrow> error + real Segment list" where
  "applySafety profile rawSegments =
     (let allowed = sortSpeeds (speeds profile) in
      case constrainAll allowed (rampLimitPerChange profile) [] rawSegments of
        Inl e \<Rightarrow> Inl e
      | Inr constrained \<Rightarrow>
          (case minSegmentSec profile of
             None \<Rightarrow> Inr constrained
           | Some minSeg \<Rightarrow> Inr (mergeAll minSeg [] constrained)))"

definition finalizeWorkout ::
  "DeviceProfile \<Rightarrow> string option \<Rightarrow> RawSegment list \<Rightarrow> error + Workout" where
  "finalizeWorkout profile nm segs =
     (case applySafety profile segs of
        Inl e \<Rightarrow> Inl e
      | Inr constrained \<Rightarrow>
          Inr \<lparr>w_name = (case nm of None \<Rightarrow> name profile | Some n \<Rightarrow> n),
               w_units = units profile,
               totalSecs = foldl (\<lambda>sum segment. sum + secs segment) 0 constrained,
               segments = constrained\<rparr>)"

section \<open>Plan builders\<close>

text \<open>
  The cues are template literals that print numbers. JavaScript's conversion of a number
  to a string is a parameter \<open>fmt\<close> of every builder, so that nothing proved depends on
  how a number prints.

  With an empty speed list the source reads \<^verbatim>\<open>speeds[0]\<close> and \<^verbatim>\<open>speeds[speeds.length - 1]\<close>
  as \<^verbatim>\<open>undefined\<close>, and the first \<^verbatim>\<open>quantizeDown\<close> throws before it looks at the target
  computed from them. \<open>firstSpeed\<close> and \<open>lastSpeed\<close> read the two ends of the sorted list;
  on the empty list they give 0, a value that reaches nothing but the target of the
  \<^verbatim>\<open>quantizeDown\<close> that fails.
\<close>

definition firstSpeed :: "real list \<Rightarrow> real" where
  "firstSpeed sp = (case sp of [] \<Rightarrow> 0 | v # _ \<Rightarrow> v)"

definition lastSpeed :: "real list \<Rightarrow> real" where
  "lastSpeed sp = (if sp = [] then 0 else last sp)"

definition unitsStr :: "Units \<Rightarrow> string" where
  "unitsStr u = (case u of mph \<Rightarrow> ''mph'' | kph \<Rightarrow> ''kph'')"

definition orDefault :: "'a option \<Rightarrow> 'a \<Rightarrow> 'a" where
  "orDefault v d = (case v of None \<Rightarrow> d | Some x \<Rightarrow> x)"

text \<open>
  A raw segment \<^verbatim>\<open>{ secs, speed, cue }\<close> of a builder, and the printing of a speed that
  may be \<^verbatim>\<open>undefined\<close> in a template literal.
\<close>

definition mkSegment :: "real \<Rightarrow> real option \<Rightarrow> string \<Rightarrow> RawSegment" where
  "mkSegment s v c = \<lparr>secs = s, speed = v, incline = None, cue = Some c\<rparr>"

definition fmtU :: "(real \<Rightarrow> string) \<Rightarrow> real option \<Rightarrow> string" where
  "fmtU fmt v = (case v of None \<Rightarrow> ''undefined'' | Some x \<Rightarrow> fmt x)"

definition warmTargetOf :: "real list \<Rightarrow> real" where
  "warmTargetOf sp =
     (let mx = lastSpeed sp; mn = firstSpeed sp in clamp (mn + (mx - mn) * 0.35) mn mx)"

definition intervalsSegments ::
  "(real \<Rightarrow> string) \<Rightarrow> DeviceProfile \<Rightarrow> IntervalPlanOpts \<Rightarrow> error + RawSegment list" where
  "intervalsSegments fmt profile opts =
     (let sp = sortSpeeds (speeds profile);
          mx = lastSpeed sp;
          mn = firstSpeed sp;
          warmupM = orDefault (warmupMins opts) 5;
          cooldownM = orDefault (cooldownMins opts) 5;
          reps = orDefault (repeats opts) 6;
          hardS = orDefault (hardSecs opts) 90;
          easyS = orDefault (easySecs opts) 90;
          hardI = orDefault (hardIntensity opts) 0.85;
          easyI = orDefault (easyIntensity opts) 0.55;
          u = unitsStr (units profile)
      in case quantizeDown sp (warmTargetOf sp) of
           Inl e \<Rightarrow> Inl e
         | Inr warm \<Rightarrow>
       (case quantizeDown sp (clamp (mx * hardI) mn mx) of
           Inl e \<Rightarrow> Inl e
         | Inr hard \<Rightarrow>
       (case quantizeDown sp (clamp (mx * easyI) mn mx) of
           Inl e \<Rightarrow> Inl e
         | Inr easy \<Rightarrow>
           Inr ((if warmupM > 0
                 then [mkSegment (real_of_int (round (warmupM * 60))) (Some warm)
                         (''Warm-up @ '' @ fmt warm @ '' '' @ u)]
                 else [])
                @ concat (map (\<lambda>i.
                    [mkSegment hardS (Some hard)
                       (''Hard '' @ fmt (real (i + 1)) @ ''/'' @ fmt reps
                          @ '' @ '' @ fmt hard @ '' '' @ u),
                     mkSegment easyS (Some easy)
                       (''Easy '' @ fmt (real (i + 1)) @ ''/'' @ fmt reps
                          @ '' @ '' @ fmt easy @ '' '' @ u)])
                    [0..<nat \<lceil>reps\<rceil>])
                @ (if cooldownM > 0
                   then [mkSegment (real_of_int (round (cooldownM * 60))) (Some warm)
                           (''Cool-down @ '' @ fmt warm @ '' '' @ u)]
                   else [])))))"

definition makeIntervals ::
  "(real \<Rightarrow> string) \<Rightarrow> DeviceProfile \<Rightarrow> IntervalPlanOpts \<Rightarrow> error + Workout" where
  "makeIntervals fmt profile opts =
     (case intervalsSegments fmt profile opts of
        Inl e \<Rightarrow> Inl e
      | Inr segs \<Rightarrow> finalizeWorkout profile (Some (orDefault (i_name opts) ''Intervals'')) segs)"

definition steadySegments ::
  "(real \<Rightarrow> string) \<Rightarrow> DeviceProfile \<Rightarrow> SteadyOpts \<Rightarrow> error + RawSegment list" where
  "steadySegments fmt profile opts =
     (let sp = sortSpeeds (speeds profile);
          mx = lastSpeed sp;
          mn = firstSpeed sp;
          totalM = orDefault (s_totalMins opts) 30;
          inten = orDefault (intensity opts) 0.65;
          strides = orDefault (addStrides opts) True;
          u = unitsStr (units profile)
      in case quantizeDown sp (warmTargetOf sp) of
           Inl e \<Rightarrow> Inl e
         | Inr warm \<Rightarrow>
       (case quantizeDown sp (clamp (mx * inten) mn mx) of
           Inl e \<Rightarrow> Inl e
         | Inr cruise \<Rightarrow>
           let total = max 0 (real_of_int (round (totalM * 60)));
               warmSecs = min (total / 2) (5 * 60);
               coolSecs = warmSecs;
               cruiseSecs = max 0 (total - warmSecs - coolSecs);
               warmSeg = mkSegment (real_of_int (round warmSecs)) (Some warm)
                           (''Warm-up @ '' @ fmt warm @ '' '' @ u);
               cruiseSeg = mkSegment (real_of_int (round cruiseSecs)) (Some cruise)
                           (''Cruise @ '' @ fmt cruise @ '' '' @ u);
               coolSeg = mkSegment (real_of_int (round coolSecs)) (Some warm)
                           (''Cool-down @ '' @ fmt warm @ '' '' @ u)
           in if strides \<and> cruiseSecs \<ge> 4 * (20 + 40) \<and> length sp \<ge> 3 then
                (case quantizeDown sp (clamp (mx * 0.9) mn mx) of
                   Inl e \<Rightarrow> Inl e
                 | Inr stride \<Rightarrow>
                     let preCruise = max 0 (secs cruiseSeg - (4 * 20 + 4 * 40)) in
                     Inr ([warmSeg]
                          @ (if preCruise > 0
                             then [\<lparr>secs = preCruise, speed = speed cruiseSeg,
                                    incline = None, cue = cue cruiseSeg\<rparr>]
                             else [])
                          @ concat (map (\<lambda>i.
                              [mkSegment 20 (Some stride)
                                 (''Stride '' @ fmt (real (i + 1)) @ ''/4 @ '' @ fmt stride
                                    @ '' '' @ u),
                               mkSegment 40 (speed cruiseSeg)
                                 (''Easy between strides @ '' @ fmtU fmt (speed cruiseSeg)
                                    @ '' '' @ u)])
                              [0..<4])
                          @ [coolSeg]))
              else Inr [warmSeg, cruiseSeg, coolSeg]))"

definition makeSteady ::
  "(real \<Rightarrow> string) \<Rightarrow> DeviceProfile \<Rightarrow> SteadyOpts \<Rightarrow> error + Workout" where
  "makeSteady fmt profile opts =
     (case steadySegments fmt profile opts of
        Inl e \<Rightarrow> Inl e
      | Inr segs \<Rightarrow> finalizeWorkout profile (Some (orDefault (s_name opts) ''Steady'')) segs)"

text \<open>
  The ladder of \<^verbatim>\<open>makeProgression\<close>. Entry \<open>i\<close> reads \<^verbatim>\<open>usableSpeeds[idx]\<close>, where
  \<^verbatim>\<open>Math.round\<close> is \<^term>\<open>round\<close> (both round a half up); a read outside the array gives
  \<^verbatim>\<open>undefined\<close>, and the ladder keeps it.
\<close>

definition ladderIndex :: "real \<Rightarrow> nat \<Rightarrow> nat \<Rightarrow> int" where
  "ladderIndex stepCount n i =
     (if stepCount = 1 then int n - 1
      else round ((real i / (stepCount - 1)) * (real n - 1)))"

definition readAt :: "real list \<Rightarrow> int \<Rightarrow> real option" where
  "readAt xs idx = (if 0 \<le> idx \<and> idx < int (length xs) then Some (xs ! nat idx) else None)"

definition buildLadder :: "real list \<Rightarrow> real \<Rightarrow> real \<Rightarrow> real option list" where
  "buildLadder usableSpeeds warm stepCount =
     map (\<lambda>i. if usableSpeeds = [] then Some warm
              else readAt usableSpeeds (ladderIndex stepCount (length usableSpeeds) i))
         [0..<nat \<lceil>stepCount\<rceil>]"

text \<open>The warm speed and the ladder, as \<^verbatim>\<open>makeProgression\<close> computes them.\<close>

definition progressionLadder ::
  "DeviceProfile \<Rightarrow> ProgressionOpts \<Rightarrow> error + (real \<times> real option list)" where
  "progressionLadder profile opts =
     (let sp = sortSpeeds (speeds profile);
          mx = lastSpeed sp;
          mn = firstSpeed sp;
          stepsN = orDefault (steps opts) 4;
          topI = orDefault (topIntensity opts) 0.8
      in case quantizeDown sp (warmTargetOf sp) of
           Inl e \<Rightarrow> Inl e
         | Inr warm \<Rightarrow>
       (case quantizeDown sp (clamp (mx * topI) warm mx) of
           Inl e \<Rightarrow> Inl e
         | Inr topSpeed \<Rightarrow>
           let stepCount = max 1 stepsN;
               usableSpeeds = filter (\<lambda>v. v \<ge> warm \<and> v \<le> topSpeed) sp
           in Inr (warm, buildLadder usableSpeeds warm stepCount)))"

text \<open>
  \<^verbatim>\<open>ladder.forEach\<close>, with the mutable \<^verbatim>\<open>remainder\<close> and the index as arguments.
\<close>

fun stepSegments ::
  "(real \<Rightarrow> string) \<Rightarrow> string \<Rightarrow> real \<Rightarrow> real \<Rightarrow> real \<Rightarrow> nat \<Rightarrow> real option list
     \<Rightarrow> RawSegment list" where
  "stepSegments fmt u stepCount baseStepSecs remainder index [] = []"
| "stepSegments fmt u stepCount baseStepSecs remainder index (v # rest) =
     mkSegment (if remainder > 0 then baseStepSecs + 1 else baseStepSecs) v
       (''Step '' @ fmt (real (index + 1)) @ ''/'' @ fmt stepCount
          @ '' @ '' @ fmtU fmt v @ '' '' @ u)
     # stepSegments fmt u stepCount baseStepSecs
         (if remainder > 0 then remainder - 1 else remainder) (index + 1) rest"

definition progressionSegments ::
  "(real \<Rightarrow> string) \<Rightarrow> DeviceProfile \<Rightarrow> ProgressionOpts \<Rightarrow> error + RawSegment list" where
  "progressionSegments fmt profile opts =
     (case progressionLadder profile opts of
        Inl e \<Rightarrow> Inl e
      | Inr (warm, ladder) \<Rightarrow>
          let totalM = orDefault (p_totalMins opts) 30;
              stepCount = max 1 (orDefault (steps opts) 4);
              u = unitsStr (units profile);
              total = max 0 (real_of_int (round (totalM * 60)));
              warmSecs = min (total / 2) (5 * 60);
              coolSecs = warmSecs;
              workSecs = max 0 (total - warmSecs - coolSecs);
              baseStepSecs = (if stepCount \<noteq> 0
                              then real_of_int \<lfloor>workSecs / stepCount\<rfloor> else 0);
              remainder = workSecs - baseStepSecs * stepCount
          in Inr ([mkSegment (real_of_int (round warmSecs)) (Some warm)
                     (''Warm-up @ '' @ fmt warm @ '' '' @ u)]
                  @ stepSegments fmt u stepCount baseStepSecs remainder 0 ladder
                  @ [mkSegment (real_of_int (round coolSecs)) (Some warm)
                       (''Cool-down @ '' @ fmt warm @ '' '' @ u)]))"

definition makeProgression ::
  "(real \<Rightarrow> string) \<Rightarrow> DeviceProfile \<Rightarrow> ProgressionOpts \<Rightarrow> error + Workout" where
  "makeProgression fmt profile opts =
     (case progressionSegments fmt profile opts of
        Inl e \<Rightarrow> Inl e
      | Inr segs \<Rightarrow>
          finalizeWorkout profile (Some (orDefault (p_name opts) ''Progression'')) segs)"

section \<open>Inputs of the repository's tests\<close>

text \<open>
  The device profile and the options of \<^verbatim>\<open>test/intervals.test.ts\<close> and of the steady and
  progression tests, used below to run the model. \<open>sampleFmt\<close> stands in for the printing
  of numbers there: it prints every number as \<^verbatim>\<open>#\<close>.
\<close>

definition sampleFmt :: "real \<Rightarrow> string" where
  "sampleFmt x = ''#''"

definition testProfile :: DeviceProfile where
  "testProfile =
     \<lparr>name = ''Test Device'', units = mph, speeds = [1, 1.5, 2, 2.5, 3], inclines = None,
      minSegmentSec = Some 30, rampLimitPerChange = Some 1\<rparr>"

definition scenarioA :: IntervalPlanOpts where
  "scenarioA =
     \<lparr>i_name = Some ''Custom Intervals'', warmupMins = Some 1, cooldownMins = Some 1,
      repeats = Some 3, hardSecs = Some 60, easySecs = Some 30,
      hardIntensity = Some 0.85, easyIntensity = Some 0.55\<rparr>"

definition scenarioB :: IntervalPlanOpts where
  "scenarioB =
     \<lparr>i_name = None, warmupMins = Some 1, cooldownMins = Some 0,
      repeats = Some 1, hardSecs = Some 60, easySecs = Some 30,
      hardIntensity = Some 1, easyIntensity = Some 1\<rparr>"

definition scenarioD :: SteadyOpts where
  "scenarioD =
     \<lparr>s_name = None, s_totalMins = Some 30, intensity = Some 0.7, addStrides = Some True\<rparr>"

definition scenarioE :: ProgressionOpts where
  "scenarioE =
     \<lparr>p_name = None, p_totalMins = Some 30, steps = Some 5, topIntensity = Some 0.85\<rparr>"

text \<open>
  The steady test picks the stride segments out of a workout by their cue:
  \<^verbatim>\<open>segment.cue?.startsWith('Stride')\<close>.
\<close>

definition startsWith :: "string \<Rightarrow> string \<Rightarrow> bool" where
  "startsWith s p = (take (length p) s = p)"

definition isStride :: "'v Segment \<Rightarrow> bool" where
  "isStride seg = (case cue seg of None \<Rightarrow> False | Some c \<Rightarrow> startsWith c ''Stride'')"

text \<open>
  The progression test picks the step segments the same way:
  \<^verbatim>\<open>segment.cue?.startsWith('Step')\<close>.
\<close>

definition isStep :: "'v Segment \<Rightarrow> bool" where
  "isStep seg = (case cue seg of None \<Rightarrow> False | Some c \<Rightarrow> startsWith c ''Step'')"

text \<open>
  The profile of the second interval test (ramp limit \<open>0.2\<close> on speeds \<open>1, 2, 3\<close>), and a
  profile whose three speeds leave nothing between \<open>0.7\<close> and \<open>0.9\<close> of the maximum.
\<close>

definition rampProfile :: DeviceProfile where
  "rampProfile = testProfile\<lparr>speeds := [1, 2, 3], rampLimitPerChange := Some 0.2\<rparr>"

definition coarseProfile :: DeviceProfile where
  "coarseProfile =
     \<lparr>name = ''Coarse Device'', units = mph, speeds = [1, 2, 10], inclines = None,
      minSegmentSec = Some 30, rampLimitPerChange = None\<rparr>"

text \<open>
  The test profile with a ramp limit of \<open>0.2\<close>, the progression options of the test with
  \<open>steps = 2.5\<close>, and three workouts: what \<open>makeSteady\<close> returns for \<open>coarseProfile\<close> and
  for \<open>tightProfile\<close>, and what \<open>makeProgression\<close> returns for \<open>halfSteps\<close> (each shown to
  be that result below).
\<close>

definition tightProfile :: DeviceProfile where
  "tightProfile = testProfile\<lparr>rampLimitPerChange := Some 0.2\<rparr>"

definition halfSteps :: ProgressionOpts where
  "halfSteps = scenarioE\<lparr>steps := Some 2.5\<rparr>"

definition coarseWorkout :: Workout where
  "coarseWorkout =
     \<lparr>w_name = ''Steady'', w_units = mph, totalSecs = 1800,
      segments =
        [\<lparr>secs = 300, speed = 2, incline = None, cue = Some ''Warm-up @ # mph''\<rparr>,
         \<lparr>secs = 980, speed = 2, incline = None,
            cue = Some ''Cruise @ # mph | Stride #/4 @ # mph''\<rparr>,
         \<lparr>secs = 60, speed = 2, incline = None,
            cue = Some ''Easy between strides @ # mph | Stride #/4 @ # mph''\<rparr>,
         \<lparr>secs = 60, speed = 2, incline = None,
            cue = Some ''Easy between strides @ # mph | Stride #/4 @ # mph''\<rparr>,
         \<lparr>secs = 60, speed = 2, incline = None,
            cue = Some ''Easy between strides @ # mph | Stride #/4 @ # mph''\<rparr>,
         \<lparr>secs = 40, speed = 2, incline = None,
            cue = Some ''Easy between strides @ # mph''\<rparr>,
         \<lparr>secs = 300, speed = 2, incline = None, cue = Some ''Cool-down @ # mph''\<rparr>]\<rparr>"

definition tightWorkout :: Workout where
  "tightWorkout =
     \<lparr>w_name = ''Steady'', w_units = mph, totalSecs = 1800,
      segments =
        [\<lparr>secs = 300, speed = 1.5, incline = None, cue = Some ''Warm-up @ # mph''\<rparr>,
         \<lparr>secs = 980, speed = 1.5, incline = None,
            cue = Some ''Cruise @ # mph (clamped) | Stride #/4 @ # mph (clamped)''\<rparr>,
         \<lparr>secs = 60, speed = 1.5, incline = None,
            cue = Some
              ''Easy between strides @ # mph (clamped) | Stride #/4 @ # mph (clamped)''\<rparr>,
         \<lparr>secs = 60, speed = 1.5, incline = None,
            cue = Some
              ''Easy between strides @ # mph (clamped) | Stride #/4 @ # mph (clamped)''\<rparr>,
         \<lparr>secs = 60, speed = 1.5, incline = None,
            cue = Some
              ''Easy between strides @ # mph (clamped) | Stride #/4 @ # mph (clamped)''\<rparr>,
         \<lparr>secs = 40, speed = 1.5, incline = None,
            cue = Some ''Easy between strides @ # mph (clamped)''\<rparr>,
         \<lparr>secs = 300, speed = 1.5, incline = None, cue = Some ''Cool-down @ # mph''\<rparr>]\<rparr>"

definition halfStepsWorkout :: Workout where
  "halfStepsWorkout =
     \<lparr>w_name = ''Progression'', w_units = mph, totalSecs = 2040,
      segments =
        [\<lparr>secs = 300, speed = 1.5, incline = None, cue = Some ''Warm-up @ # mph''\<rparr>,
         \<lparr>secs = 480, speed = 1.5, incline = None, cue = Some ''Step #/# @ # mph''\<rparr>,
         \<lparr>secs = 480, speed = 2, incline = None, cue = Some ''Step #/# @ # mph''\<rparr>,
         \<lparr>secs = 480, speed = 1, incline = None,
            cue = Some ''Step #/# @ undefined mph''\<rparr>,
         \<lparr>secs = 300, speed = 1.5, incline = None, cue = Some ''Cool-down @ # mph''\<rparr>]\<rparr>"

text \<open>A finished segment without an incline, to write the lists of segments below.\<close>

definition outSegment :: "real \<Rightarrow> real \<Rightarrow> string \<Rightarrow> real Segment" where
  "outSegment s v c = \<lparr>secs = s, speed = v, incline = None, cue = Some c\<rparr>"

section \<open>Properties of the quantizer\<close>

lemma scanDown_takeWhile:
  "scanDown vs t c = last (c # takeWhile (\<lambda>v. v \<le> t) vs)"
  by (induction vs arbitrary: c) auto

lemma quantizeDown_Cons:
  "quantizeDown (a # vs) t = Inr (last (a # takeWhile (\<lambda>v. v \<le> t) (a # vs)))"
  by (simp add: quantizeDown_def scanDown_takeWhile)

lemma quantizeDown_Nil [simp]: "quantizeDown [] t = Inl EmptyDomain"
  by (simp add: quantizeDown_def)

lemma quantizeDown_Inr:
  "allowed \<noteq> [] \<Longrightarrow> \<exists>q. quantizeDown allowed t = Inr q"
  by (cases allowed) (simp_all add: quantizeDown_Cons)

lemma quantizeDown_mem:
  assumes "quantizeDown allowed t = Inr q"
  shows "q \<in> set allowed"
proof (cases allowed)
  case Nil
  with assms show ?thesis by simp
next
  case (Cons a vs)
  let ?ws = "takeWhile (\<lambda>v. v \<le> t) (a # vs)"
  have q: "q = last (a # ?ws)"
    using assms Cons by (simp add: quantizeDown_Cons)
  show ?thesis
  proof (cases "?ws = []")
    case True
    with q Cons show ?thesis by simp
  next
    case False
    then have "q = last ?ws" using q by simp
    then have "q \<in> set ?ws" using False last_in_set by metis
    then have "q \<in> set (a # vs)" by (rule set_takeWhileD [THEN conjunct1])
    with Cons show ?thesis by simp
  qed
qed

lemma sorted_last_Max:
  "sorted xs \<Longrightarrow> xs \<noteq> [] \<Longrightarrow> last xs = Max (set xs)"
proof (induction xs)
  case Nil
  then show ?case by simp
next
  case (Cons x xs)
  show ?case
  proof (cases "xs = []")
    case True
    then show ?thesis by simp
  next
    case False
    have "\<forall>y\<in>set xs. x \<le> y" using Cons.prems by simp
    moreover have "last xs \<in> set xs" using False by simp
    ultimately have "x \<le> last xs" by blast
    moreover have "last xs = Max (set xs)" using Cons False by simp
    ultimately show ?thesis using False by (simp add: max_def)
  qed
qed

lemma sorted_takeWhile_filter:
  "sorted xs \<Longrightarrow> takeWhile (\<lambda>v. v \<le> (t::real)) xs = filter (\<lambda>v. v \<le> t) xs"
proof (induction xs)
  case Nil
  then show ?case by simp
next
  case (Cons x xs)
  show ?case
  proof (cases "x \<le> t")
    case True
    then show ?thesis using Cons by simp
  next
    case False
    have "\<forall>y\<in>set xs. x \<le> y" using Cons.prems by simp
    then have "\<forall>y\<in>set xs. \<not> y \<le> t" using False by auto
    then have "filter (\<lambda>v. v \<le> t) xs = []" by (simp add: filter_empty_conv)
    then show ?thesis using False by simp
  qed
qed

lemma quantizeDown_below:
  assumes "sorted allowed" "allowed \<noteq> []" "\<not> Min (set allowed) \<le> t"
  shows "quantizeDown allowed t = Inr (Min (set allowed))"
proof -
  obtain a vs where av: "allowed = a # vs" using assms(2) by (cases allowed) auto
  have "\<forall>y\<in>set vs. a \<le> y" using assms(1) av by simp
  then have amin: "Min (set allowed) = a"
    using av by (intro Min_eqI) auto
  then have "\<not> a \<le> t" using assms(3) by simp
  then show ?thesis using av amin by (simp add: quantizeDown_Cons)
qed

lemma quantizeDown_floor:
  assumes "sorted allowed" "allowed \<noteq> []" "Min (set allowed) \<le> t"
  shows "quantizeDown allowed t = Inr (Max {v \<in> set allowed. v \<le> t})"
proof -
  obtain a vs where av: "allowed = a # vs" using assms(2) by (cases allowed) auto
  have "\<forall>y\<in>set vs. a \<le> y" using assms(1) av by simp
  then have "Min (set allowed) = a"
    using av by (intro Min_eqI) auto
  then have a: "a \<le> t" using assms(3) by simp
  let ?ws = "takeWhile (\<lambda>v. v \<le> t) allowed"
  have ne: "?ws \<noteq> []" using a av by simp
  have "quantizeDown allowed t = Inr (last (a # ?ws))"
    using av by (simp add: quantizeDown_Cons)
  also have "last (a # ?ws) = last ?ws" using ne by simp
  also have "?ws = filter (\<lambda>v. v \<le> t) allowed"
    using assms(1) by (rule sorted_takeWhile_filter)
  also have "last (filter (\<lambda>v. v \<le> t) allowed) = Max (set (filter (\<lambda>v. v \<le> t) allowed))"
    using assms(1) ne sorted_takeWhile_filter [OF assms(1), of t]
    by (intro sorted_last_Max sorted_wrt_filter) auto
  also have "set (filter (\<lambda>v. v \<le> t) allowed) = {v \<in> set allowed. v \<le> t}" by simp
  finally show ?thesis .
qed

lemma quantizeDown_idem:
  assumes "sorted allowed" "v \<in> set allowed"
  shows "quantizeDown allowed v = Inr v"
proof -
  have ne: "allowed \<noteq> []" using assms(2) by auto
  have "Min (set allowed) \<le> v" using assms(2) by simp
  then have "quantizeDown allowed v = Inr (Max {w \<in> set allowed. w \<le> v})"
    using assms(1) ne by (rule quantizeDown_floor [rotated 2])
  moreover have "Max {w \<in> set allowed. w \<le> v} = v"
    using assms(2) by (intro Max_eqI) auto
  ultimately show ?thesis by simp
qed

lemma quantizeDown_mono:
  assumes "sorted allowed" "t1 \<le> t2"
    and "quantizeDown allowed t1 = Inr q1" "quantizeDown allowed t2 = Inr q2"
  shows "q1 \<le> q2"
proof -
  have ne: "allowed \<noteq> []" using assms(3) by auto
  have m2: "q2 \<in> set allowed" using assms(4) by (rule quantizeDown_mem)
  show ?thesis
  proof (cases "Min (set allowed) \<le> t1")
    case False
    then have "q1 = Min (set allowed)"
      using quantizeDown_below [OF assms(1) ne False] assms(3) by simp
    then show ?thesis using m2 by simp
  next
    case True
    then have le2: "Min (set allowed) \<le> t2" using assms(2) by simp
    have q1: "q1 = Max {v \<in> set allowed. v \<le> t1}"
      using quantizeDown_floor [OF assms(1) ne True] assms(3) by simp
    have q2: "q2 = Max {v \<in> set allowed. v \<le> t2}"
      using quantizeDown_floor [OF assms(1) ne le2] assms(4) by simp
    have "Min (set allowed) \<in> {v \<in> set allowed. v \<le> t1}"
      using True ne by simp
    then have "{v \<in> set allowed. v \<le> t1} \<noteq> {}" by blast
    moreover have "{v \<in> set allowed. v \<le> t1} \<subseteq> {v \<in> set allowed. v \<le> t2}"
      using assms(2) by auto
    ultimately show ?thesis unfolding q1 q2 by (intro Max_mono) auto
  qed
qed

lemma quantizeDownU_Inr:
  "allowed \<noteq> [] \<Longrightarrow> \<exists>q. quantizeDownU allowed t = Inr q"
  using quantizeDown_Inr [of allowed]
  by (cases allowed) (auto simp: quantizeDownU_def split: option.splits)

lemma quantizeDownU_mem:
  "quantizeDownU allowed t = Inr q \<Longrightarrow> q \<in> set allowed"
  using quantizeDown_mem [of allowed _ q]
  by (auto simp: quantizeDownU_def split: option.splits list.splits)

lemma quantizeDownU_Some [simp]: "quantizeDownU allowed (Some t) = quantizeDown allowed t"
  by (simp add: quantizeDownU_def)

section \<open>The ramp limiter, one segment at a time\<close>

lemma pickBest_mem: "pickBest cs b best d \<in> insert best (set cs)"
  by (induction cs arbitrary: best d) (auto simp: Let_def)

lemma rampCandidates_set:
  "set (rampCandidates allowed prev r) = {v \<in> set allowed. \<bar>v - prev\<bar> \<le> r}"
  by (auto simp: rampCandidates_def)

lemma constrainSegment_Inr:
  "allowed \<noteq> [] \<Longrightarrow> \<exists>s. constrainSegment allowed rl cs seg = Inr s"
  using quantizeDownU_Inr [of allowed "speed seg"]
  by (auto simp: constrainSegment_def)

lemma constrainSegment_secs:
  "constrainSegment allowed rl cs seg = Inr s \<Longrightarrow> secs s = secs seg"
  by (auto simp: constrainSegment_def emit_def Let_def
        split: sum.splits option.splits list.splits if_splits)

lemma constrainSegment_cases:
  assumes "constrainSegment allowed rl cs seg = Inr s"
  obtains (base) "quantizeDownU allowed (speed seg) = Inr (speed s)"
        "rl = None \<or> cs = [] \<or> \<bar>speed s - speed (last cs)\<bar> \<le> the rl \<or> speed s = speed (last cs)"
  | (best) r where "rl = Some r" "cs \<noteq> []" "speed s \<in> set (rampCandidates allowed (speed (last cs)) r)"
  | (stall) r where "rl = Some r" "cs \<noteq> []" "rampCandidates allowed (speed (last cs)) r = []"
        "speed s = speed (last cs)"
proof -
  obtain b where b: "quantizeDownU allowed (speed seg) = Inr b"
    using assms by (auto simp: constrainSegment_def split: sum.splits)
  show ?thesis
  proof (cases rl)
    case None
    then have "speed s = b" using assms b by (auto simp: constrainSegment_def emit_def)
    then show ?thesis using b None base by simp
  next
    case (Some r)
    show ?thesis
    proof (cases "cs = []")
      case True
      then have "speed s = b" using assms b Some by (auto simp: constrainSegment_def emit_def)
      then show ?thesis using b True base by simp
    next
      case False
      let ?prev = "speed (last cs)"
      show ?thesis
      proof (cases "\<bar>b - ?prev\<bar> > r")
        case False
        then have "speed s = b" using assms b Some \<open>cs \<noteq> []\<close>
          by (auto simp: constrainSegment_def emit_def Let_def)
        then show ?thesis using b False Some base by simp
      next
        case True
        show ?thesis
        proof (cases "rampCandidates allowed ?prev r")
          case Nil
          then have "speed s = ?prev" using assms b Some \<open>cs \<noteq> []\<close> True
            by (auto simp: constrainSegment_def emit_def Let_def split: if_splits)
          then show ?thesis using stall Some \<open>cs \<noteq> []\<close> Nil by simp
        next
          case (Cons c0 rest)
          let ?best = "pickBest (c0 # rest) b c0 \<bar>c0 - b\<bar>"
          have bm: "?best \<in> set (c0 # rest)"
            using pickBest_mem [of "c0 # rest" b c0 "\<bar>c0 - b\<bar>"] by auto
          have "speed s = ?best" using assms b Some \<open>cs \<noteq> []\<close> True Cons
            by (auto simp: constrainSegment_def emit_def Let_def split: if_splits)
          then show ?thesis using best Some \<open>cs \<noteq> []\<close> bm Cons by simp
        qed
      qed
    qed
  qed
qed


lemma constrainAll_Inr:
  "allowed \<noteq> [] \<Longrightarrow> \<exists>out. constrainAll allowed rl acc raw = Inr out"
proof (induction raw arbitrary: acc)
  case Nil
  then show ?case by simp
next
  case (Cons seg raw)
  obtain s where "constrainSegment allowed rl acc seg = Inr s"
    using constrainSegment_Inr [OF Cons.prems] by blast
  then show ?case using Cons.IH [OF Cons.prems, of "acc @ [s]"] by simp
qed

lemma constrainAll_invariant:
  assumes "constrainAll allowed rl acc raw = Inr out"
    and "P acc"
    and "\<And>cs seg s. P cs \<Longrightarrow> constrainSegment allowed rl cs seg = Inr s \<Longrightarrow> P (cs @ [s])"
  shows "P out"
  using assms(1,2)
proof (induction raw arbitrary: acc)
  case Nil
  then show ?case by simp
next
  case (Cons seg raw)
  then obtain s where s: "constrainSegment allowed rl acc seg = Inr s"
    and rest: "constrainAll allowed rl (acc @ [s]) raw = Inr out"
    by (auto split: sum.splits)
  have "P (acc @ [s])" using assms(3) Cons.prems(2) s by blast
  then show ?case using Cons.IH rest by blast
qed

lemma constrainAll_secs:
  "constrainAll allowed rl acc raw = Inr out \<Longrightarrow> map secs out = map secs acc @ map secs raw"
proof (induction raw arbitrary: acc)
  case Nil
  then show ?case by simp
next
  case (Cons seg raw)
  then obtain s where s: "constrainSegment allowed rl acc seg = Inr s"
    and rest: "constrainAll allowed rl (acc @ [s]) raw = Inr out"
    by (auto split: sum.splits)
  show ?case using Cons.IH [OF rest] constrainSegment_secs [OF s] by simp
qed

lemma constrainSegment_allowed:
  assumes "constrainSegment allowed rl cs seg = Inr s"
    and "\<forall>x\<in>set cs. speed x \<in> set allowed"
  shows "speed s \<in> set allowed"
  using assms(1)
proof (cases rule: constrainSegment_cases)
  case base
  then show ?thesis using quantizeDownU_mem by blast
next
  case (best r)
  then show ?thesis by (simp add: rampCandidates_set)
next
  case (stall r)
  then show ?thesis using assms(2) by simp
qed

lemma constrainAll_allowed:
  assumes "constrainAll allowed rl [] raw = Inr out"
  shows "\<forall>x\<in>set out. speed x \<in> set allowed"
  using assms
  by (rule constrainAll_invariant) (auto dest: constrainSegment_allowed)

lemma constrainSegment_ramp:
  assumes "constrainSegment allowed (Some r) cs seg = Inr s" "cs \<noteq> []"
  shows "\<bar>speed s - speed (last cs)\<bar> \<le> r \<or> speed s = speed (last cs)"
  using assms(1)
proof (cases rule: constrainSegment_cases)
  case base
  then show ?thesis using assms(2) by auto
next
  case (best r')
  then show ?thesis by (simp add: rampCandidates_set)
next
  case (stall r')
  then show ?thesis by simp
qed

lemma constrainAll_ramp:
  assumes "constrainAll allowed (Some r) [] raw = Inr out"
  shows "successively (\<lambda>a b. \<bar>speed b - speed a\<bar> \<le> r \<or> speed b = speed a) out"
  using assms
proof (rule constrainAll_invariant)
  show "successively (\<lambda>a b. \<bar>speed b - speed a\<bar> \<le> r \<or> speed b = speed a) []" by simp
next
  fix cs seg s
  assume "successively (\<lambda>a b. \<bar>speed b - speed a\<bar> \<le> r \<or> speed b = speed a) cs"
    "constrainSegment allowed (Some r) cs seg = Inr s"
  then show "successively (\<lambda>a b. \<bar>speed b - speed a\<bar> \<le> r \<or> speed b = speed a) (cs @ [s])"
    using constrainSegment_ramp [of allowed r cs seg s]
    by (auto simp: successively_append_iff)
qed

section \<open>The merge pass\<close>

lemma update_last:
  "xs \<noteq> [] \<Longrightarrow> xs[length xs - 1 := x] = butlast xs @ [x]"
  by (cases xs rule: rev_cases) (auto simp: list_update_append)

lemma mergeAll_snoc_merge:
  assumes "speed L = speed seg" "secs L < m \<or> secs seg < m"
  shows "mergeAll m (ys @ [L]) (seg # rest) =
         mergeAll m (ys @ [L\<lparr>secs := secs L + secs seg, cue := mergeCue (cue L) (cue seg)\<rparr>]) rest"
  using assms by (simp add: list_update_append)

lemma mergeAll_snoc_push:
  assumes "\<not> (speed L = speed seg \<and> (secs L < m \<or> secs seg < m))"
  shows "mergeAll m (ys @ [L]) (seg # rest) = mergeAll m (ys @ [L, seg]) rest"
  using assms by auto

lemma mergeAll_sum:
  "sum_list (map secs (mergeAll m acc xs)) = sum_list (map secs acc) + sum_list (map secs xs)"
proof (induction xs arbitrary: acc)
  case Nil
  then show ?case by simp
next
  case (Cons seg xs)
  show ?case
  proof (cases acc rule: rev_cases)
    case Nil
    then show ?thesis using Cons.IH [of "[seg]"] by simp
  next
    case (snoc ys L)
    show ?thesis
    proof (cases "speed L = speed seg \<and> (secs L < m \<or> secs seg < m)")
      case True
      then show ?thesis
        unfolding snoc using mergeAll_snoc_merge [of L seg m ys xs] Cons.IH by simp
    next
      case False
      then show ?thesis
        unfolding snoc using mergeAll_snoc_push [of L seg m ys xs] Cons.IH by simp
    qed
  qed
qed

lemma mergeAll_speeds:
  "speed ` set (mergeAll m acc xs) \<subseteq> speed ` set acc \<union> speed ` set xs"
proof (induction xs arbitrary: acc)
  case Nil
  then show ?case by simp
next
  case (Cons seg xs)
  show ?case
  proof (cases acc rule: rev_cases)
    case Nil
    have "speed ` set (mergeAll m [seg] xs) \<subseteq> speed ` set [seg] \<union> speed ` set xs"
      by (rule Cons.IH)
    then show ?thesis unfolding Nil by simp
  next
    case (snoc ys L)
    show ?thesis
    proof (cases "speed L = speed seg \<and> (secs L < m \<or> secs seg < m)")
      case True
      let ?L = "L\<lparr>secs := secs L + secs seg, cue := mergeCue (cue L) (cue seg)\<rparr>"
      have eq: "mergeAll m acc (seg # xs) = mergeAll m (ys @ [?L]) xs"
        unfolding snoc using True by (intro mergeAll_snoc_merge) auto
      have sub: "speed ` set (ys @ [?L]) \<subseteq> speed ` set acc" unfolding snoc by auto
      have "speed ` set (mergeAll m (ys @ [?L]) xs) \<subseteq> speed ` set (ys @ [?L]) \<union> speed ` set xs"
        by (rule Cons.IH)
      then have "speed ` set (mergeAll m (ys @ [?L]) xs) \<subseteq> speed ` set acc \<union> speed ` set xs"
        using sub by blast
      then show ?thesis unfolding eq by auto
    next
      case False
      have eq: "mergeAll m acc (seg # xs) = mergeAll m (ys @ [L, seg]) xs"
        unfolding snoc using False by (intro mergeAll_snoc_push) auto
      have sub: "speed ` set (ys @ [L, seg]) \<subseteq> speed ` set acc \<union> {speed seg}"
        unfolding snoc by auto
      have "speed ` set (mergeAll m (ys @ [L, seg]) xs)
              \<subseteq> speed ` set (ys @ [L, seg]) \<union> speed ` set xs"
        by (rule Cons.IH)
      then have "speed ` set (mergeAll m (ys @ [L, seg]) xs)
              \<subseteq> speed ` set acc \<union> {speed seg} \<union> speed ` set xs"
        using sub by blast
      then show ?thesis unfolding eq by auto
    qed
  qed
qed

lemma mergeAll_adjacent:
  fixes R :: "real \<Rightarrow> real \<Rightarrow> bool"
  shows "successively (\<lambda>a b. R (speed a) (speed b)) (acc @ xs) \<Longrightarrow>
         successively (\<lambda>a b. R (speed a) (speed b)) (mergeAll m acc xs)"
proof (induction xs arbitrary: acc)
  case Nil
  then show ?case by simp
next
  case (Cons seg xs)
  let ?Q = "\<lambda>a b. R (speed a) (speed b)"
  show ?case
  proof (cases acc rule: rev_cases)
    case Nil
    then show ?thesis using Cons.IH [of "[seg]"] Cons.prems by simp
  next
    case (snoc ys L)
    show ?thesis
    proof (cases "speed L = speed seg \<and> (secs L < m \<or> secs seg < m)")
      case True
      let ?L = "L\<lparr>secs := secs L + secs seg, cue := mergeCue (cue L) (cue seg)\<rparr>"
      have eq: "mergeAll m acc (seg # xs) = mergeAll m (ys @ [?L]) xs"
        unfolding snoc using True by (intro mergeAll_snoc_merge) auto
      have sL: "speed ?L = speed L" "speed ?L = speed seg" using True by simp_all
      have p: "successively ?Q (ys @ [L] @ seg # xs)"
        using Cons.prems snoc by simp
      have 1: "successively ?Q ys" "successively ?Q xs"
        using p by (auto simp: successively_append_iff successively_Cons)
      have 2: "ys \<noteq> [] \<Longrightarrow> ?Q (last ys) ?L"
        using p sL by (auto simp: successively_append_iff successively_Cons)
      have 3: "xs \<noteq> [] \<Longrightarrow> ?Q ?L (hd xs)"
        using p sL by (auto simp: successively_append_iff successively_Cons)
      have "successively ?Q ((ys @ [?L]) @ xs)"
        using 1 2 3 by (auto simp: successively_append_iff successively_Cons)
      then show ?thesis using Cons.IH [of "ys @ [?L]"] eq by simp
    next
      case False
      have "mergeAll m acc (seg # xs) = mergeAll m (ys @ [L, seg]) xs"
        unfolding snoc using False by (intro mergeAll_snoc_push) auto
      then show ?thesis using Cons.IH [of "ys @ [L, seg]"] Cons.prems snoc by simp
    qed
  qed
qed

lemma mergeAll_dwell:
  "successively (\<lambda>a b. speed a = speed b \<longrightarrow> m \<le> secs a) acc \<Longrightarrow>
   successively (\<lambda>a b. speed a = speed b \<longrightarrow> m \<le> secs a) (mergeAll m acc xs)"
proof (induction xs arbitrary: acc)
  case Nil
  then show ?case by simp
next
  case (Cons seg xs)
  show ?case
  proof (cases acc rule: rev_cases)
    case Nil
    then show ?thesis using Cons.IH [of "[seg]"] by simp
  next
    case (snoc ys L)
    show ?thesis
    proof (cases "speed L = speed seg \<and> (secs L < m \<or> secs seg < m)")
      case True
      let ?L = "L\<lparr>secs := secs L + secs seg, cue := mergeCue (cue L) (cue seg)\<rparr>"
      have eq: "mergeAll m acc (seg # xs) = mergeAll m (ys @ [?L]) xs"
        unfolding snoc using True by (intro mergeAll_snoc_merge) auto
      have "successively (\<lambda>a b. speed a = speed b \<longrightarrow> m \<le> secs a) (ys @ [?L])"
        using Cons.prems snoc by (auto simp: successively_append_iff)
      then show ?thesis using Cons.IH [of "ys @ [?L]"] eq by simp
    next
      case False
      have eq: "mergeAll m acc (seg # xs) = mergeAll m (ys @ [L, seg]) xs"
        unfolding snoc using False by (intro mergeAll_snoc_push) auto
      have "successively (\<lambda>a b. speed a = speed b \<longrightarrow> m \<le> secs a) (ys @ [L, seg])"
        using Cons.prems snoc False by (auto simp: successively_append_iff)
      then show ?thesis using Cons.IH [of "ys @ [L, seg]"] eq by simp
    qed
  qed
qed

section \<open>The pipeline and the builders\<close>

lemma sortSpeeds_set [simp]: "set (sortSpeeds xs) = set xs"
  by (simp add: sortSpeeds_def)

lemma sortSpeeds_sorted [simp]: "sorted (sortSpeeds xs)"
  by (simp add: sortSpeeds_def)

lemma sortSpeeds_Nil [simp]: "sortSpeeds xs = [] \<longleftrightarrow> xs = []"
  by (metis sortSpeeds_set set_empty)

lemma sortSpeeds_length [simp]: "length (sortSpeeds xs) = length xs"
  by (simp add: sortSpeeds_def)

lemma foldl_secs:
  "foldl (\<lambda>sum segment. sum + secs segment) a xs = a + sum_list (map secs xs)"
  by (induction xs arbitrary: a) simp_all

lemma applySafety_Inr:
  assumes "speeds profile \<noteq> []"
  shows "\<exists>cs. constrainAll (sortSpeeds (speeds profile)) (rampLimitPerChange profile) [] raw = Inr cs
           \<and> applySafety profile raw =
               Inr (case minSegmentSec profile of None \<Rightarrow> cs | Some m \<Rightarrow> mergeAll m [] cs)"
proof -
  have "sortSpeeds (speeds profile) \<noteq> []" using assms by simp
  then obtain cs where
    "constrainAll (sortSpeeds (speeds profile)) (rampLimitPerChange profile) [] raw = Inr cs"
    using constrainAll_Inr by blast
  then show ?thesis by (auto simp: applySafety_def split: option.splits)
qed

lemma finalizeWorkout_Inr:
  assumes "speeds profile \<noteq> []"
  shows "\<exists>w out. finalizeWorkout profile nm raw = Inr w \<and> applySafety profile raw = Inr out
           \<and> segments w = out \<and> totalSecs w = sum_list (map secs out)"
proof -
  obtain out where "applySafety profile raw = Inr out"
    using applySafety_Inr [OF assms] by blast
  then show ?thesis by (simp add: finalizeWorkout_def foldl_secs)
qed

lemma quantizeDown_not_Inl:
  "allowed \<noteq> [] \<Longrightarrow> quantizeDown allowed t \<noteq> Inl e"
  by (cases allowed) (simp_all add: quantizeDown_Cons)

lemma intervalsSegments_Inr:
  assumes "speeds profile \<noteq> []"
  shows "\<exists>raw. intervalsSegments fmt profile opts = Inr raw"
proof -
  have ne: "sortSpeeds (speeds profile) \<noteq> []" using assms by simp
  show ?thesis
    unfolding intervalsSegments_def Let_def
    using quantizeDown_not_Inl [OF ne]
    by (auto split: sum.splits)
qed

lemma steadySegments_Inr:
  assumes "speeds profile \<noteq> []"
  shows "\<exists>raw. steadySegments fmt profile opts = Inr raw"
proof -
  have ne: "sortSpeeds (speeds profile) \<noteq> []" using assms by simp
  show ?thesis
    unfolding steadySegments_def Let_def
    using quantizeDown_not_Inl [OF ne]
    by (auto split: sum.splits)
qed

lemma progressionLadder_Inr:
  assumes "speeds profile \<noteq> []"
  shows "\<exists>warm ladder. progressionLadder profile opts = Inr (warm, ladder)"
proof -
  have ne: "sortSpeeds (speeds profile) \<noteq> []" using assms by simp
  show ?thesis
    unfolding progressionLadder_def Let_def
    using quantizeDown_not_Inl [OF ne]
    by (auto split: sum.splits)
qed

lemma progressionSegments_Inr:
  assumes "speeds profile \<noteq> []"
  shows "\<exists>raw. progressionSegments fmt profile opts = Inr raw"
  using progressionLadder_Inr [OF assms, of opts]
  by (auto simp: progressionSegments_def Let_def)

lemma makeIntervals_finalize:
  assumes "speeds profile \<noteq> []"
  shows "\<exists>nm raw. makeIntervals fmt profile opts = finalizeWorkout profile nm raw"
proof -
  obtain raw where "intervalsSegments fmt profile opts = Inr raw"
    using intervalsSegments_Inr [OF assms] by blast
  then show ?thesis unfolding makeIntervals_def by auto
qed

lemma makeSteady_finalize:
  assumes "speeds profile \<noteq> []"
  shows "\<exists>nm raw. makeSteady fmt profile opts = finalizeWorkout profile nm raw"
proof -
  obtain raw where "steadySegments fmt profile opts = Inr raw"
    using steadySegments_Inr [OF assms] by blast
  then show ?thesis unfolding makeSteady_def by auto
qed

lemma makeProgression_finalize:
  assumes "speeds profile \<noteq> []"
  shows "\<exists>nm raw. makeProgression fmt profile opts = finalizeWorkout profile nm raw"
proof -
  obtain raw where "progressionSegments fmt profile opts = Inr raw"
    using progressionSegments_Inr [OF assms] by blast
  then show ?thesis unfolding makeProgression_def by auto
qed

lemma applySafety_allowed:
  assumes "applySafety profile raw = Inr out"
  shows "\<forall>s\<in>set out. speed s \<in> set (speeds profile)"
proof -
  obtain cs where cs:
    "constrainAll (sortSpeeds (speeds profile)) (rampLimitPerChange profile) [] raw = Inr cs"
    and out: "out = (case minSegmentSec profile of None \<Rightarrow> cs | Some m \<Rightarrow> mergeAll m [] cs)"
    using assms by (auto simp: applySafety_def split: sum.splits option.splits)
  have a: "\<forall>s\<in>set cs. speed s \<in> set (speeds profile)"
    using constrainAll_allowed [OF cs] by simp
  show ?thesis
  proof (cases "minSegmentSec profile")
    case None
    then show ?thesis using a out by simp
  next
    case (Some m)
    have "speed ` set (mergeAll m [] cs) \<subseteq> speed ` set cs"
      using mergeAll_speeds [of m "[]" cs] by simp
    then show ?thesis using a out Some by auto
  qed
qed

lemma finalizeWorkout_allowed:
  assumes "speeds profile \<noteq> []"
  shows "\<exists>w. finalizeWorkout profile nm raw = Inr w \<and>
             (\<forall>s\<in>set (segments w). speed s \<in> set (speeds profile))"
  using finalizeWorkout_Inr [OF assms, of nm raw] applySafety_allowed by blast

lemma constrainAll_steps:
  assumes "constrainAll allowed rl acc raw = Inr cs"
  shows "length cs = length acc + length raw \<and> take (length acc) cs = acc \<and>
         (\<forall>k<length raw. constrainSegment allowed rl (take (length acc + k) cs) (raw ! k)
                            = Inr (cs ! (length acc + k)))"
  using assms
proof (induction raw arbitrary: acc)
  case Nil
  then show ?case by simp
next
  case (Cons seg raw)
  then obtain s where s: "constrainSegment allowed rl acc seg = Inr s"
    and rest: "constrainAll allowed rl (acc @ [s]) raw = Inr cs"
    by (auto split: sum.splits)
  note ih = Cons.IH [OF rest]
  have len: "length cs = length acc + length (seg # raw)" using ih by simp
  have tk: "take (Suc (length acc)) cs = acc @ [s]" using ih by simp
  have tk0: "take (length acc) cs = acc"
  proof -
    have "take (length acc) cs = take (length acc) (take (Suc (length acc)) cs)"
      by (simp add: min_def)
    then show ?thesis using tk by simp
  qed
  have nth0: "cs ! length acc = s"
  proof -
    have "cs ! length acc = (take (Suc (length acc)) cs) ! length acc" by simp
    then show ?thesis using tk by simp
  qed
  have steps: "constrainSegment allowed rl (take (length acc + k) cs) ((seg # raw) ! k)
                 = Inr (cs ! (length acc + k))" if k: "k < length (seg # raw)" for k
  proof (cases k)
    case 0
    then show ?thesis using s tk0 nth0 by simp
  next
    case (Suc j)
    then have "j < length raw" using k by simp
    then have "constrainSegment allowed rl (take (length (acc @ [s]) + j) cs) (raw ! j)
                 = Inr (cs ! (length (acc @ [s]) + j))"
      using ih by blast
    then show ?thesis using Suc by simp
  qed
  show ?case using len tk0 steps by blast
qed

lemma applySafety_unfold:
  assumes "applySafety profile raw = Inr out"
  obtains cs where
    "constrainAll (sortSpeeds (speeds profile)) (rampLimitPerChange profile) [] raw = Inr cs"
    "out = (case minSegmentSec profile of None \<Rightarrow> cs | Some m \<Rightarrow> mergeAll m [] cs)"
  using assms by (auto simp: applySafety_def split: sum.splits option.splits)

lemma builder_cases:
  assumes "makeIntervals fmt profile iopts = Inr w \<or> makeSteady fmt profile sopts = Inr w \<or>
           makeProgression fmt profile popts = Inr w"
  obtains raw where "applySafety profile raw = Inr (segments w)"
    "totalSecs w = sum_list (map secs (segments w))"
proof -
  have fin: "\<exists>raw. applySafety profile raw = Inr (segments w) \<and>
                   totalSecs w = sum_list (map secs (segments w))"
    if "finalizeWorkout profile nm raw0 = Inr w" for nm raw0
    using that by (auto simp: finalizeWorkout_def foldl_secs split: sum.splits)
  from assms have "\<exists>nm raw0. finalizeWorkout profile nm raw0 = Inr w"
    by (auto simp: makeIntervals_def makeSteady_def makeProgression_def split: sum.splits)
  then show ?thesis using fin that by blast
qed

section \<open>The progression ladder\<close>

lemma ladderIndex_mono:
  assumes "1 \<le> stepCount" "i \<le> j" "0 < n"
  shows "ladderIndex stepCount n i \<le> ladderIndex stepCount n j"
proof (cases "stepCount = 1")
  case True
  then show ?thesis by (simp add: ladderIndex_def)
next
  case False
  then have d: "0 \<le> stepCount - 1" using assms(1) by simp
  have n: "0 \<le> real n - 1" using assms(3) by simp
  have "real i / (stepCount - 1) \<le> real j / (stepCount - 1)"
    using assms(2) d by (intro divide_right_mono) simp_all
  then have "real i / (stepCount - 1) * (real n - 1) \<le> real j / (stepCount - 1) * (real n - 1)"
    using n by (rule mult_right_mono)
  then have "round (real i / (stepCount - 1) * (real n - 1))
               \<le> round (real j / (stepCount - 1) * (real n - 1))"
    by (rule round_mono)
  then show ?thesis using False by (simp add: ladderIndex_def)
qed

lemma ladderIndex_nonneg:
  assumes "1 \<le> stepCount" "0 < n"
  shows "0 \<le> ladderIndex stepCount n i"
proof (cases "stepCount = 1")
  case True
  then show ?thesis using assms(2) by (simp add: ladderIndex_def)
next
  case False
  then have d: "0 \<le> stepCount - 1" using assms(1) by simp
  have n: "0 \<le> real n - 1" using assms(2) by simp
  have "0 \<le> real i / (stepCount - 1) * (real n - 1)" using d n by simp
  then have "round (0::real) \<le> round (real i / (stepCount - 1) * (real n - 1))"
    by (rule round_mono)
  then show ?thesis using False by (simp add: ladderIndex_def)
qed

lemma ladderIndex_range:
  assumes "stepCount \<in> \<int>" "1 \<le> stepCount" "i < nat \<lceil>stepCount\<rceil>" "0 < n"
  shows "ladderIndex stepCount n i < int n"
proof (cases "stepCount = 1")
  case True
  then show ?thesis using assms(4) by (simp add: ladderIndex_def)
next
  case False
  obtain z where z: "stepCount = real_of_int z" using assms(1) by (auto elim: Ints_cases)
  have d: "0 < stepCount - 1" using False assms(2) by simp
  have "int i < z" using assms(3) z by simp
  then have "int i \<le> z - 1" by simp
  then have "real_of_int (int i) \<le> real_of_int (z - 1)" by (simp only: of_int_le_iff)
  then have "real i \<le> stepCount - 1" using z by simp
  then have "real i / (stepCount - 1) \<le> 1" using d by simp
  moreover have "0 \<le> real n - 1" using assms(4) by simp
  ultimately have "real i / (stepCount - 1) * (real n - 1) \<le> 1 * (real n - 1)"
    by (rule mult_right_mono)
  then have "round (real i / (stepCount - 1) * (real n - 1)) \<le> round (real_of_int (int n - 1))"
    by (intro round_mono) simp
  then have "round (real i / (stepCount - 1) * (real n - 1)) \<le> int n - 1"
    by (simp only: round_of_int)
  then show ?thesis using False by (simp add: ladderIndex_def)
qed

lemma antitone_prefix:
  assumes "\<And>i j. i \<le> j \<Longrightarrow> P j \<Longrightarrow> P i"
  shows "\<exists>k\<le>(N::nat). (\<forall>i<k. P i) \<and> (\<forall>i. k \<le> i \<and> i < N \<longrightarrow> \<not> P i)"
proof (induction N)
  case 0
  then show ?case by simp
next
  case (Suc N)
  then obtain k where k: "k \<le> N" "\<forall>i<k. P i" "\<forall>i. k \<le> i \<and> i < N \<longrightarrow> \<not> P i" by blast
  show ?case
  proof (cases "P N")
    case True
    then have "\<forall>i<Suc N. P i" using assms by (metis less_Suc_eq_le)
    then show ?thesis by (intro exI [of _ "Suc N"]) simp
  next
    case False
    then have "\<forall>i. k \<le> i \<and> i < Suc N \<longrightarrow> \<not> P i" using k(3) by (metis less_Suc_eq)
    then show ?thesis using k(1,2) by (intro exI [of _ k]) simp
  qed
qed

lemma buildLadder_length [simp]:
  "length (buildLadder usable warm stepCount) = nat \<lceil>stepCount\<rceil>"
  by (simp add: buildLadder_def)

lemma buildLadder_shape:
  assumes "sorted usable" "1 \<le> stepCount"
  shows "\<exists>vs m. buildLadder usable warm stepCount = map Some vs @ replicate m None \<and>
           sorted vs \<and> set vs \<subseteq> insert warm (set usable) \<and> (stepCount \<in> \<int> \<longrightarrow> m = 0)"
proof (cases "usable = []")
  case True
  let ?N = "nat \<lceil>stepCount\<rceil>"
  have "buildLadder usable warm stepCount = map Some (replicate ?N warm) @ replicate 0 None"
    using True by (simp add: buildLadder_def map_replicate_const)
  moreover have "sorted (replicate ?N warm)" by simp
  moreover have "set (replicate ?N warm) \<subseteq> insert warm (set usable)" by auto
  ultimately show ?thesis by blast
next
  case False
  let ?N = "nat \<lceil>stepCount\<rceil>"
  let ?n = "length usable"
  let ?idx = "ladderIndex stepCount ?n"
  have n: "0 < ?n" using False by simp
  have anti: "?idx i < int ?n" if "i \<le> j" "?idx j < int ?n" for i j
    using ladderIndex_mono [OF assms(2) that(1) n] that(2) by simp
  obtain k where k: "k \<le> ?N" "\<forall>i<k. ?idx i < int ?n"
    "\<forall>i. k \<le> i \<and> i < ?N \<longrightarrow> \<not> ?idx i < int ?n"
    using antitone_prefix [of "\<lambda>i. ?idx i < int ?n" ?N] anti by blast
  let ?vs = "map (\<lambda>i. usable ! nat (?idx i)) [0..<k]"
  have split: "[0..<?N] = [0..<k] @ [k..<?N]"
    using k(1) upt_add_eq_append [of 0 k "?N - k"] by simp
  have a: "map (\<lambda>i. readAt usable (?idx i)) [0..<k] = map Some ?vs"
    using k(2) ladderIndex_nonneg [OF assms(2) n] by (simp add: readAt_def)
  have "map (\<lambda>i. readAt usable (?idx i)) [k..<?N] = map (\<lambda>i. None) [k..<?N]"
    using k(3) by (intro map_cong) (simp_all add: readAt_def)
  then have b: "map (\<lambda>i. readAt usable (?idx i)) [k..<?N] = replicate (?N - k) None"
    by (simp add: map_replicate_const)
  have shape: "buildLadder usable warm stepCount = map Some ?vs @ replicate (?N - k) None"
    using False a b by (simp add: buildLadder_def split)
  have srt: "sorted ?vs"
  proof (subst sorted_iff_nth_mono, intro allI impI)
    fix i j assume ij: "i \<le> j" and j: "j < length ?vs"
    then have jk: "j < k" and ik: "i < k" by simp_all
    have "?idx i \<le> ?idx j" using assms(2) ij n by (rule ladderIndex_mono)
    then have "nat (?idx i) \<le> nat (?idx j)" by simp
    moreover have "nat (?idx j) < ?n"
      using k(2) jk ladderIndex_nonneg [OF assms(2) n, of j] by (simp add: nat_less_iff)
    ultimately have "usable ! nat (?idx i) \<le> usable ! nat (?idx j)"
      using assms(1) by (intro sorted_nth_mono)
    then show "?vs ! i \<le> ?vs ! j" using ik jk by simp
  qed
  have sub: "set ?vs \<subseteq> insert warm (set usable)"
  proof
    fix x assume "x \<in> set ?vs"
    then obtain i where i: "i < k" and x: "x = usable ! nat (?idx i)" by auto
    have "nat (?idx i) < ?n"
      using k(2) i ladderIndex_nonneg [OF assms(2) n, of i] by (simp add: nat_less_iff)
    then show "x \<in> insert warm (set usable)" using x by simp
  qed
  have full: "?N - k = 0" if "stepCount \<in> \<int>"
  proof (rule ccontr)
    assume "?N - k \<noteq> 0"
    then have kN: "k < ?N" by (metis diff_is_0_eq' leI)
    then have "\<not> ?idx k < int ?n" using k(3) by simp
    moreover have "?idx k < int ?n" using that assms(2) kN n by (rule ladderIndex_range)
    ultimately show False by simp
  qed
  show ?thesis using shape srt sub full by blast
qed

lemma stepSegments_speeds:
  "map speed (stepSegments fmt u sc b rem idx ladder) = ladder"
  by (induction ladder arbitrary: rem idx) (simp_all add: mkSegment_def)

lemma stepSegments_isStep:
  "filter isStep (stepSegments fmt u sc b rem idx ladder) = stepSegments fmt u sc b rem idx ladder"
  by (induction ladder arbitrary: rem idx)
     (simp_all add: mkSegment_def isStep_def startsWith_def)

section \<open>The steady plan with strides\<close>

lemma upt_0_4: "[0..<4] = [0, 1, 2, 3]"
  by (simp add: upt_rec)

lemma firstSpeed_Min:
  "sorted sp \<Longrightarrow> sp \<noteq> [] \<Longrightarrow> firstSpeed sp = Min (set sp)"
  by (cases sp) (auto simp: firstSpeed_def intro!: Min_eqI [symmetric])

lemma lastSpeed_Max:
  "sorted sp \<Longrightarrow> sp \<noteq> [] \<Longrightarrow> lastSpeed sp = Max (set sp)"
  by (simp add: lastSpeed_def sorted_last_Max)

lemma clamp_lower: "lo \<le> clamp n lo hi"
  by (simp add: clamp_def)

lemma quantizeDown_le_target:
  assumes "sorted allowed" "Min (set allowed) \<le> t" "quantizeDown allowed t = Inr q"
  shows "q \<le> t"
proof -
  have ne: "allowed \<noteq> []" using assms(3) by auto
  have q: "q = Max {v \<in> set allowed. v \<le> t}"
    using quantizeDown_floor [OF assms(1) ne assms(2)] assms(3) by simp
  have "Min (set allowed) \<in> {v \<in> set allowed. v \<le> t}" using assms(2) ne by simp
  then have "{v \<in> set allowed. v \<le> t} \<noteq> {}" by blast
  then have "Max {v \<in> set allowed. v \<le> t} \<in> {v \<in> set allowed. v \<le> t}"
    by (intro Max_in) auto
  then show ?thesis using q by simp
qed

lemma quantizeDown_greatest:
  assumes "sorted allowed" "v \<in> set allowed" "v \<le> t" "quantizeDown allowed t = Inr q"
  shows "v \<le> q"
proof -
  have ne: "allowed \<noteq> []" using assms(2) by auto
  have "Min (set allowed) \<le> v" using assms(2) by simp
  then have m: "Min (set allowed) \<le> t" using assms(3) by simp
  have q: "q = Max {w \<in> set allowed. w \<le> t}"
    using quantizeDown_floor [OF assms(1) ne m] assms(4) by simp
  show ?thesis unfolding q using assms(2,3) by (intro Max_ge) auto
qed

lemma stride_target_ge:
  assumes "mn \<le> mx"
  shows "clamp (mx * 0.7) mn mx \<le> clamp (mx * 0.9) mn mx"
proof (cases "0 \<le> mx")
  case True
  then have "mx * 0.7 \<le> mx * 0.9" by simp
  then show ?thesis by (auto simp: clamp_def min_def max_def)
next
  case False
  then have "mx \<le> mx * 0.7" "mx \<le> mx * 0.9" by simp_all
  then show ?thesis using assms by (simp add: clamp_def min_def max_def)
qed

lemma applySafety_sum:
  assumes "applySafety profile raw = Inr out"
  shows "sum_list (map secs out) = sum_list (map secs raw)"
proof -
  obtain cs where
    cs: "constrainAll (sortSpeeds (speeds profile)) (rampLimitPerChange profile) [] raw = Inr cs"
    and out: "out = (case minSegmentSec profile of None \<Rightarrow> cs | Some m \<Rightarrow> mergeAll m [] cs)"
    using assms by (rule applySafety_unfold)
  have "map secs cs = map secs raw" using constrainAll_secs [OF cs] by simp
  then have "sum_list (map secs cs) = sum_list (map secs raw)" by simp
  then show ?thesis using out mergeAll_sum [of _ "[]" cs] by (simp split: option.splits)
qed

lemma steadySegments_strides:
  assumes "3 \<le> length (speeds profile)"
    and "s_totalMins opts = Some 30" "intensity opts = Some 0.7" "addStrides opts = Some True"
    and sp: "sp = sortSpeeds (speeds profile)"
    and warm: "quantizeDown sp (warmTargetOf sp) = Inr warm"
    and cruise: "quantizeDown sp (clamp (lastSpeed sp * 0.7) (firstSpeed sp) (lastSpeed sp)) = Inr cruise"
    and stride: "quantizeDown sp (clamp (lastSpeed sp * 0.9) (firstSpeed sp) (lastSpeed sp)) = Inr stride"
    and u: "u = unitsStr (units profile)"
  shows "steadySegments fmt profile opts = Inr
     [mkSegment 300 (Some warm) (''Warm-up @ '' @ fmt warm @ '' '' @ u),
      mkSegment 960 (Some cruise) (''Cruise @ '' @ fmt cruise @ '' '' @ u),
      mkSegment 20 (Some stride) (''Stride '' @ fmt 1 @ ''/4 @ '' @ fmt stride @ '' '' @ u),
      mkSegment 40 (Some cruise) (''Easy between strides @ '' @ fmt cruise @ '' '' @ u),
      mkSegment 20 (Some stride) (''Stride '' @ fmt 2 @ ''/4 @ '' @ fmt stride @ '' '' @ u),
      mkSegment 40 (Some cruise) (''Easy between strides @ '' @ fmt cruise @ '' '' @ u),
      mkSegment 20 (Some stride) (''Stride '' @ fmt 3 @ ''/4 @ '' @ fmt stride @ '' '' @ u),
      mkSegment 40 (Some cruise) (''Easy between strides @ '' @ fmt cruise @ '' '' @ u),
      mkSegment 20 (Some stride) (''Stride '' @ fmt 4 @ ''/4 @ '' @ fmt stride @ '' '' @ u),
      mkSegment 40 (Some cruise) (''Easy between strides @ '' @ fmt cruise @ '' '' @ u),
      mkSegment 300 (Some warm) (''Cool-down @ '' @ fmt warm @ '' '' @ u)]"
proof -
  have "3 \<le> length sp" using assms(1) sp by simp
  then show ?thesis
    using warm cruise stride
    unfolding steadySegments_def Let_def sp [symmetric] u [symmetric] orDefault_def assms(2,3,4)
    by (simp add: upt_0_4 mkSegment_def fmtU_def)
qed

lemma constrainAll_unclamped:
  assumes "sorted allowed"
    and "\<forall>s\<in>set raw. \<exists>v. speed s = Some v \<and> v \<in> set allowed"
    and "rl = None \<or> successively (\<lambda>a b. \<bar>speed b - speed a\<bar> \<le> the rl)
            (acc @ map (\<lambda>s. emit s (the (speed s)) (cue s)) raw)"
  shows "constrainAll allowed rl acc raw
           = Inr (acc @ map (\<lambda>s. emit s (the (speed s)) (cue s)) raw)"
  using assms(2,3)
proof (induction raw arbitrary: acc)
  case Nil
  then show ?case by simp
next
  case (Cons seg raw)
  obtain v where v: "speed seg = Some v" "v \<in> set allowed" using Cons.prems(1) by auto
  have q: "quantizeDownU allowed (speed seg) = Inr v"
    using quantizeDown_idem [OF assms(1) v(2)] v(1) by simp
  have near: "rl = None \<or> acc = [] \<or> \<not> \<bar>v - speed (last acc)\<bar> > the rl"
    using Cons.prems(2) v(1)
    by (auto simp: successively_append_iff successively_Cons emit_def)
  have step: "constrainSegment allowed rl acc seg = Inr (emit seg v (cue seg))"
    using q near by (auto simp: constrainSegment_def Let_def split: option.splits)
  have "rl = None \<or> successively (\<lambda>a b. \<bar>speed b - speed a\<bar> \<le> the rl)
            ((acc @ [emit seg v (cue seg)]) @ map (\<lambda>s. emit s (the (speed s)) (cue s)) raw)"
    using Cons.prems(2) v(1) by simp
  then have "constrainAll allowed rl (acc @ [emit seg v (cue seg)]) raw
           = Inr ((acc @ [emit seg v (cue seg)]) @ map (\<lambda>s. emit s (the (speed s)) (cue s)) raw)"
    using Cons.IH Cons.prems(1) by simp
  then show ?case using step v(1) by simp
qed

lemma merge_steady:
  assumes "cruise \<noteq> stride"
  shows "mergeAll m []
     [outSegment 300 warm (CHR ''W'' # cw), outSegment 960 cruise (CHR ''C'' # cc),
      outSegment 20 stride (CHR ''S'' # c1), outSegment 40 cruise (CHR ''E'' # ce),
      outSegment 20 stride (CHR ''S'' # c2), outSegment 40 cruise (CHR ''E'' # ce),
      outSegment 20 stride (CHR ''S'' # c3), outSegment 40 cruise (CHR ''E'' # ce),
      outSegment 20 stride (CHR ''S'' # c4), outSegment 40 cruise (CHR ''E'' # ce),
      outSegment 300 warm (CHR ''C'' # cd)]
   = (if warm = cruise \<and> (300 < m \<or> 960 < m)
      then [outSegment 1260 cruise (CHR ''W'' # cw @ '' | '' @ CHR ''C'' # cc)]
      else [outSegment 300 warm (CHR ''W'' # cw), outSegment 960 cruise (CHR ''C'' # cc)])
     @ [outSegment 20 stride (CHR ''S'' # c1), outSegment 40 cruise (CHR ''E'' # ce),
        outSegment 20 stride (CHR ''S'' # c2), outSegment 40 cruise (CHR ''E'' # ce),
        outSegment 20 stride (CHR ''S'' # c3), outSegment 40 cruise (CHR ''E'' # ce),
        outSegment 20 stride (CHR ''S'' # c4)]
     @ (if cruise = warm \<and> (40 < m \<or> 300 < m)
        then [outSegment 340 cruise (CHR ''E'' # ce @ '' | '' @ CHR ''C'' # cd)]
        else [outSegment 40 cruise (CHR ''E'' # ce), outSegment 300 warm (CHR ''C'' # cd)])"
  using assms by (simp add: outSegment_def mergeCue_def truthy_def)

lemma isStride_outSegment: "isStride (outSegment s v c) = startsWith c ''Stride''"
  by (simp add: isStride_def outSegment_def)

lemma speed_outSegment [simp]: "speed (outSegment s v c) = v" and secs_outSegment [simp]: "secs (outSegment s v c) = s"
  by (simp_all add: outSegment_def)

text \<open>
  The constrained steady plan with strides, and what every merge pass and no merge pass
  leave of it when the stride speed differs from the cruise speed.
\<close>

lemma steady_returned:
  assumes ne: "cruise \<noteq> stride"
    and plan: "cs =
     [outSegment 300 warm (''Warm-up @ '' @ x), outSegment 960 cruise (''Cruise @ '' @ y),
      outSegment 20 stride (''Stride '' @ z1), outSegment 40 cruise (''Easy between strides @ '' @ y),
      outSegment 20 stride (''Stride '' @ z2), outSegment 40 cruise (''Easy between strides @ '' @ y),
      outSegment 20 stride (''Stride '' @ z3), outSegment 40 cruise (''Easy between strides @ '' @ y),
      outSegment 20 stride (''Stride '' @ z4), outSegment 40 cruise (''Easy between strides @ '' @ y),
      outSegment 300 warm (''Cool-down @ '' @ x)]"
    and out: "out = cs \<or> out = mergeAll m [] cs"
  shows "map (\<lambda>s. (secs s, speed s)) (filter isStride out)
           = [(20, stride), (20, stride), (20, stride), (20, stride)]"
    and "successively (\<lambda>a b.
           (isStride a \<longrightarrow> \<not> isStride b \<and> speed b = cruise) \<and>
           (isStride b \<longrightarrow> \<not> isStride a \<and> speed a = cruise)) out"
proof -
  have m: "mergeAll m [] cs =
     (if warm = cruise \<and> (300 < m \<or> 960 < m)
      then [outSegment 1260 cruise (''Warm-up @ '' @ x @ '' | '' @ ''Cruise @ '' @ y)]
      else [outSegment 300 warm (''Warm-up @ '' @ x), outSegment 960 cruise (''Cruise @ '' @ y)])
     @ [outSegment 20 stride (''Stride '' @ z1), outSegment 40 cruise (''Easy between strides @ '' @ y),
        outSegment 20 stride (''Stride '' @ z2), outSegment 40 cruise (''Easy between strides @ '' @ y),
        outSegment 20 stride (''Stride '' @ z3), outSegment 40 cruise (''Easy between strides @ '' @ y),
        outSegment 20 stride (''Stride '' @ z4)]
     @ (if cruise = warm \<and> (40 < m \<or> 300 < m)
        then [outSegment 340 cruise (''Easy between strides @ '' @ y @ '' | '' @ ''Cool-down @ '' @ x)]
        else [outSegment 40 cruise (''Easy between strides @ '' @ y), outSegment 300 warm (''Cool-down @ '' @ x)])"
    unfolding plan
    using merge_steady [OF ne, of m warm "''arm-up @ '' @ x" "''ruise @ '' @ y" "''tride '' @ z1"
        "''asy between strides @ '' @ y" "''tride '' @ z2" "''tride '' @ z3" "''tride '' @ z4"
        "''ool-down @ '' @ x"]
    by simp
  show "map (\<lambda>s. (secs s, speed s)) (filter isStride out)
           = [(20, stride), (20, stride), (20, stride), (20, stride)]"
    using out unfolding m unfolding plan by (auto simp: isStride_outSegment startsWith_def)
  show "successively (\<lambda>a b.
           (isStride a \<longrightarrow> \<not> isStride b \<and> speed b = cruise) \<and>
           (isStride b \<longrightarrow> \<not> isStride a \<and> speed a = cruise)) out"
    using out unfolding m unfolding plan by (auto simp: isStride_outSegment startsWith_def)
qed

lemma builders_return:
  assumes "speeds profile \<noteq> []"
  shows "\<exists>wi ws wp. makeIntervals fmt profile iopts = Inr wi \<and>
           makeSteady fmt profile sopts = Inr ws \<and>
           makeProgression fmt profile popts = Inr wp"
proof -
  have fin: "\<exists>w. finalizeWorkout profile nm raw = Inr w" for nm raw
    using finalizeWorkout_Inr [OF assms, of nm raw] by blast
  show ?thesis
    using makeIntervals_finalize [OF assms, of fmt iopts]
      makeSteady_finalize [OF assms, of fmt sopts]
      makeProgression_finalize [OF assms, of fmt popts] fin
    by metis
qed

lemma applySafety_ramp:
  assumes "speeds profile \<noteq> []" "rampLimitPerChange profile = Some r"
  shows "\<exists>cs out.
           constrainAll (sortSpeeds (speeds profile)) (Some r) [] raw = Inr cs \<and>
           applySafety profile raw = Inr out \<and>
           successively (\<lambda>a b. \<bar>speed b - speed a\<bar> \<le> r \<or> speed b = speed a) cs \<and>
           successively (\<lambda>a b. \<bar>speed b - speed a\<bar> \<le> r \<or> speed b = speed a) out"
proof -
  let ?R = "\<lambda>u v::real. \<bar>v - u\<bar> \<le> r \<or> v = u"
  let ?Q = "\<lambda>a b. ?R (speed a) (speed b)"
  obtain cs where
    cs: "constrainAll (sortSpeeds (speeds profile)) (Some r) [] raw = Inr cs" and
    out: "applySafety profile raw =
            Inr (case minSegmentSec profile of None \<Rightarrow> cs | Some m \<Rightarrow> mergeAll m [] cs)"
    using applySafety_Inr [OF assms(1), of raw] assms(2) by auto
  have q: "successively ?Q cs" using constrainAll_ramp [OF cs] .
  have "successively ?Q (case minSegmentSec profile of None \<Rightarrow> cs | Some m \<Rightarrow> mergeAll m [] cs)"
  proof (cases "minSegmentSec profile")
    case None
    then show ?thesis using q by simp
  next
    case (Some m)
    have "successively ?Q (mergeAll m [] cs)"
      using mergeAll_adjacent [of ?R "[]" cs m] q by simp
    then show ?thesis using Some by simp
  qed
  then show ?thesis using q cs out by blast
qed

section \<open>Running the model on the tests' inputs\<close>

lemma scenarioA_run:
  "(case makeIntervals sampleFmt testProfile scenarioA of Inl e \<Rightarrow> False | Inr w \<Rightarrow>
       map secs (segments w) = [60, 60, 30, 60, 30, 60, 30, 60] \<and>
       map speed (segments w) = [1.5, 2.5, 1.5, 2.5, 1.5, 2.5, 1.5, 1.5] \<and>
       totalSecs w = 390)"
  by code_simp

lemma scenarioD_run:
  "(case makeSteady sampleFmt testProfile scenarioD of Inl e \<Rightarrow> False | Inr w \<Rightarrow>
       map secs (segments w) = [300, 960, 20, 40, 20, 40, 20, 40, 20, 40, 300] \<and>
       map speed (segments w) = [1.5, 2, 2.5, 2, 2.5, 2, 2.5, 2, 2.5, 2, 1.5] \<and>
       totalSecs w = 1800)"
  by code_simp

lemma scenarioE_run:
  "(case makeProgression sampleFmt testProfile scenarioE of Inl e \<Rightarrow> False | Inr w \<Rightarrow>
       map secs (segments w) = [300, 240, 240, 240, 240, 240, 300] \<and>
       map speed (segments w) = [1.5, 1.5, 2, 2, 2.5, 2.5, 1.5] \<and>
       totalSecs w = 1800)"
  by code_simp

lemma rampProfile_run:
  "(case intervalsSegments sampleFmt rampProfile scenarioB of Inl e \<Rightarrow> False | Inr raw \<Rightarrow>
     (case constrainAll (sortSpeeds (speeds rampProfile)) (rampLimitPerChange rampProfile) [] raw of
        Inl e \<Rightarrow> False
      | Inr cs \<Rightarrow> map speed raw = [Some 1, Some 3, Some 3] \<and> map speed cs = [1, 1, 1] \<and>
          map cue cs = [Some ''Warm-up @ # mph'', Some ''Hard #/# @ # mph (clamped)'',
                        Some ''Easy #/# @ # mph (clamped)'']))"
  by code_simp

lemma coarseProfile_run:
  "(case makeSteady sampleFmt coarseProfile scenarioD of Inl e \<Rightarrow> False | Inr w \<Rightarrow>
       map secs (segments w) = [300, 980, 60, 60, 60, 40, 300] \<and>
       map speed (segments w) = [2, 2, 2, 2, 2, 2, 2] \<and>
       filter isStride (segments w) = [] \<and>
       totalSecs w = 1800)"
  by code_simp

lemma nth_of_map_eq:
  "map f xs = ys \<Longrightarrow> i < length ys \<Longrightarrow> f (xs ! i) = ys ! i"
  by (metis length_map nth_map)

lemma scenarioE_ladder:
  "progressionLadder testProfile scenarioE
     = Inr (1.5, [Some 1.5, Some 2, Some 2, Some 2.5, Some 2.5])"
  by code_simp

lemma scenarioD_strides:
  "(case makeSteady sampleFmt testProfile scenarioD of Inl e \<Rightarrow> False | Inr w \<Rightarrow>
       map isStride (segments w)
         = [False, False, True, False, True, False, True, False, True, False, False])"
  by code_simp

lemma testProfile_speeds:
  "sortSpeeds (speeds testProfile) = [1, 1.5, 2, 2.5, 3] \<and>
   lastSpeed [1, 1.5, 2, 2.5, 3] = 3 \<and> firstSpeed [1, 1.5, 2, 2.5, 3] = 1 \<and>
   quantizeDown [1, 1.5, 2, 2.5, 3] (warmTargetOf [1, 1.5, 2, 2.5, 3]) = Inr 1.5 \<and>
   quantizeDown [1, 1.5, 2, 2.5, 3] (clamp (3 * 0.7) 1 3) = Inr 2 \<and>
   quantizeDown [1, 1.5, 2, 2.5, 3] (clamp (3 * 0.9) 1 3) = Inr 2.5"
  by code_simp

section \<open>The claims\<close>

text \<open>
  C3. For every non-empty list \<open>allowed\<close> sorted ascending and every real target,
  \<open>quantizeDown allowed target\<close> returns a member of \<open>allowed\<close>; when the minimum of
  \<open>allowed\<close> is at most the target it is the largest member that is at most the target
  (and so at most the target), and otherwise it is the minimum of \<open>allowed\<close>.
\<close>

theorem quantizeDown_largest_below:
  assumes "allowed \<noteq> []" "sorted allowed"
  shows "\<exists>q. quantizeDown allowed target = Inr q \<and> q \<in> set allowed \<and>
           (Min (set allowed) \<le> target \<longrightarrow>
              q \<le> target \<and> q = Max {v \<in> set allowed. v \<le> target}) \<and>
           (\<not> Min (set allowed) \<le> target \<longrightarrow> q = Min (set allowed))"
proof (cases "Min (set allowed) \<le> target")
  case True
  have q: "quantizeDown allowed target = Inr (Max {v \<in> set allowed. v \<le> target})"
    using assms True by (intro quantizeDown_floor)
  have "Min (set allowed) \<in> {v \<in> set allowed. v \<le> target}" using True assms(1) by simp
  then have "{v \<in> set allowed. v \<le> target} \<noteq> {}" by blast
  then have "Max {v \<in> set allowed. v \<le> target} \<in> {v \<in> set allowed. v \<le> target}"
    by (intro Max_in) auto
  then show ?thesis using q True by simp
next
  case False
  have "quantizeDown allowed target = Inr (Min (set allowed))"
    using assms False by (intro quantizeDown_below)
  then show ?thesis using False assms(1) by simp
qed

theorem quantizeDown_largest_below_witness:
  "[1, 1.5, 2, 2.5] \<noteq> [] \<and> sorted [1, 1.5, 2, 2.5 :: real] \<and>
   Min (set [1, 1.5, 2, 2.5 :: real]) \<le> 2.2 \<and>
   quantizeDown [1, 1.5, 2, 2.5] 2.2 = Inr 2 \<and>
   2 = Max {v \<in> set [1, 1.5, 2, 2.5 :: real]. v \<le> 2.2} \<and>
   \<not> Min (set [1, 1.5, 2 :: real]) \<le> 0.5 \<and>
   quantizeDown [1, 1.5, 2] 0.5 = Inr 1 \<and>
   1 = Min (set [1, 1.5, 2 :: real])"
proof -
  have a: "[1, 1.5, 2, 2.5 :: real] \<noteq> []" "sorted [1, 1.5, 2, 2.5 :: real]" by simp_all
  have b: "[1, 1.5, 2 :: real] \<noteq> []" "sorted [1, 1.5, 2 :: real]" by simp_all
  have qa: "quantizeDown [1, 1.5, 2, 2.5] 2.2 = Inr 2" by (simp add: quantizeDown_def)
  have qb: "quantizeDown [1, 1.5, 2] 0.5 = Inr 1" by (simp add: quantizeDown_def)
  have ma: "Min (set [1, 1.5, 2, 2.5 :: real]) \<le> 2.2" by simp
  have mb: "\<not> Min (set [1, 1.5, 2 :: real]) \<le> 0.5" by simp
  have "2 = Max {v \<in> set [1, 1.5, 2, 2.5 :: real]. v \<le> 2.2}"
    using quantizeDown_largest_below [OF a, of "2.2"] qa ma by auto
  moreover have "1 = Min (set [1, 1.5, 2 :: real])"
    using quantizeDown_largest_below [OF b, of "0.5"] qb mb by auto
  ultimately show ?thesis using a qa qb ma mb by blast
qed

text \<open>
  C9. For every non-empty list \<open>allowed\<close> sorted ascending, \<open>quantizeDown\<close> returns every
  member of \<open>allowed\<close> unchanged (idempotence), and for all targets \<open>t1 \<le> t2\<close> the result
  for \<open>t1\<close> is at most the result for \<open>t2\<close> (monotonicity).
\<close>

theorem quantizeDown_idempotent_monotone:
  assumes "allowed \<noteq> []" "sorted allowed"
  shows "(\<forall>v\<in>set allowed. quantizeDown allowed v = Inr v) \<and>
         (\<forall>t1 t2. t1 \<le> t2 \<longrightarrow>
            (\<exists>q1 q2. quantizeDown allowed t1 = Inr q1 \<and> quantizeDown allowed t2 = Inr q2 \<and>
                     q1 \<le> q2))"
proof (intro conjI ballI allI impI)
  fix v assume "v \<in> set allowed"
  then show "quantizeDown allowed v = Inr v" using assms(2) by (intro quantizeDown_idem)
next
  fix t1 t2 :: real assume le: "t1 \<le> t2"
  obtain q1 q2 where q: "quantizeDown allowed t1 = Inr q1" "quantizeDown allowed t2 = Inr q2"
    using quantizeDown_Inr [OF assms(1)] by blast
  then have "q1 \<le> q2" using quantizeDown_mono [OF assms(2) le] by blast
  then show "\<exists>q1 q2. quantizeDown allowed t1 = Inr q1 \<and> quantizeDown allowed t2 = Inr q2 \<and>
                     q1 \<le> q2"
    using q by blast
qed

theorem quantizeDown_idempotent_monotone_witness:
  "[0.8, 1, 1.2] \<noteq> [] \<and> sorted [0.8, 1, 1.2 :: real] \<and>
   1 \<in> set [0.8, 1, 1.2 :: real] \<and> quantizeDown [0.8, 1, 1.2] 1 = Inr 1 \<and>
   (0.9 :: real) \<le> 1.3 \<and>
   (\<exists>q1 q2. quantizeDown [0.8, 1, 1.2] 0.9 = Inr q1 \<and> quantizeDown [0.8, 1, 1.2] 1.3 = Inr q2 \<and>
            q1 = 0.8 \<and> q2 = 1.2 \<and> q1 \<le> q2)"
proof -
  have a: "[0.8, 1, 1.2 :: real] \<noteq> []" "sorted [0.8, 1, 1.2 :: real]" by simp_all
  note th = quantizeDown_idempotent_monotone [OF a]
  have i: "quantizeDown [0.8, 1, 1.2] 1 = Inr 1" using th by simp
  have le: "(0.9 :: real) \<le> 1.3" by simp
  obtain q1 q2 where q: "quantizeDown [0.8, 1, 1.2] 0.9 = Inr q1"
    "quantizeDown [0.8, 1, 1.2] 1.3 = Inr q2" "q1 \<le> q2"
    using th le by blast
  have "q1 = 0.8" "q2 = 1.2" using q by (simp_all add: quantizeDown_def)
  then show ?thesis using a i le q by simp
qed

text \<open>
  C1. For every device profile whose speed list is not empty and every options object,
  each of \<open>makeIntervals\<close>, \<open>makeSteady\<close> and \<open>makeProgression\<close> returns a workout, and
  every segment of that workout has a speed that is an element of the profile's speeds.
\<close>

theorem builders_speeds_allowed:
  assumes "speeds profile \<noteq> []"
  shows "(\<exists>w. makeIntervals fmt profile iopts = Inr w \<and>
              (\<forall>s\<in>set (segments w). speed s \<in> set (speeds profile))) \<and>
         (\<exists>w. makeSteady fmt profile sopts = Inr w \<and>
              (\<forall>s\<in>set (segments w). speed s \<in> set (speeds profile))) \<and>
         (\<exists>w. makeProgression fmt profile popts = Inr w \<and>
              (\<forall>s\<in>set (segments w). speed s \<in> set (speeds profile)))"
proof (intro conjI)
  show "\<exists>w. makeIntervals fmt profile iopts = Inr w \<and>
              (\<forall>s\<in>set (segments w). speed s \<in> set (speeds profile))"
    using makeIntervals_finalize [OF assms, of fmt iopts] finalizeWorkout_allowed [OF assms]
    by metis
  show "\<exists>w. makeSteady fmt profile sopts = Inr w \<and>
              (\<forall>s\<in>set (segments w). speed s \<in> set (speeds profile))"
    using makeSteady_finalize [OF assms, of fmt sopts] finalizeWorkout_allowed [OF assms]
    by metis
  show "\<exists>w. makeProgression fmt profile popts = Inr w \<and>
              (\<forall>s\<in>set (segments w). speed s \<in> set (speeds profile))"
    using makeProgression_finalize [OF assms, of fmt popts] finalizeWorkout_allowed [OF assms]
    by metis
qed

theorem builders_speeds_allowed_witness:
  "speeds testProfile \<noteq> [] \<and>
   (\<exists>w. makeIntervals sampleFmt testProfile scenarioA = Inr w \<and> length (segments w) = 8 \<and>
        (\<forall>s\<in>set (segments w). speed s \<in> set (speeds testProfile))) \<and>
   (\<exists>w. makeSteady sampleFmt testProfile scenarioD = Inr w \<and> length (segments w) = 11 \<and>
        (\<forall>s\<in>set (segments w). speed s \<in> set (speeds testProfile))) \<and>
   (\<exists>w. makeProgression sampleFmt testProfile scenarioE = Inr w \<and> length (segments w) = 7 \<and>
        (\<forall>s\<in>set (segments w). speed s \<in> set (speeds testProfile)))"
proof -
  have ne: "speeds testProfile \<noteq> []" by (simp add: testProfile_def)
  from builders_speeds_allowed [OF ne, of sampleFmt scenarioA scenarioD scenarioE]
  obtain w1 w2 w3 where
    w1: "makeIntervals sampleFmt testProfile scenarioA = Inr w1"
      "\<forall>s\<in>set (segments w1). speed s \<in> set (speeds testProfile)" and
    w2: "makeSteady sampleFmt testProfile scenarioD = Inr w2"
      "\<forall>s\<in>set (segments w2). speed s \<in> set (speeds testProfile)" and
    w3: "makeProgression sampleFmt testProfile scenarioE = Inr w3"
      "\<forall>s\<in>set (segments w3). speed s \<in> set (speeds testProfile)"
    by blast
  have "map secs (segments w1) = [60, 60, 30, 60, 30, 60, 30, 60]"
    using scenarioA_run w1(1) by simp
  from arg_cong [OF this, of length] have l1: "length (segments w1) = 8" by simp
  have "map secs (segments w2) = [300, 960, 20, 40, 20, 40, 20, 40, 20, 40, 300]"
    using scenarioD_run w2(1) by simp
  from arg_cong [OF this, of length] have l2: "length (segments w2) = 11" by simp
  have "map secs (segments w3) = [300, 240, 240, 240, 240, 240, 300]"
    using scenarioE_run w3(1) by simp
  from arg_cong [OF this, of length] have l3: "length (segments w3) = 7" by simp
  show ?thesis using ne w1 w2 w3 l1 l2 l3 by blast
qed

text \<open>
  C5. For every device profile whose speed list is not empty and every options object,
  the workout returned by each builder has \<open>totalSecs\<close> equal to the sum of \<open>secs\<close> over
  its (merged) segment list.
\<close>

theorem builders_totalSecs:
  assumes "speeds profile \<noteq> []"
  shows "(\<exists>w. makeIntervals fmt profile iopts = Inr w \<and>
              totalSecs w = sum_list (map secs (segments w))) \<and>
         (\<exists>w. makeSteady fmt profile sopts = Inr w \<and>
              totalSecs w = sum_list (map secs (segments w))) \<and>
         (\<exists>w. makeProgression fmt profile popts = Inr w \<and>
              totalSecs w = sum_list (map secs (segments w)))"
proof -
  have fin: "\<exists>w. finalizeWorkout profile nm raw = Inr w \<and>
                 totalSecs w = sum_list (map secs (segments w))" for nm raw
    using finalizeWorkout_Inr [OF assms, of nm raw] by auto
  show ?thesis
    using makeIntervals_finalize [OF assms, of fmt iopts]
      makeSteady_finalize [OF assms, of fmt sopts]
      makeProgression_finalize [OF assms, of fmt popts] fin
    by metis
qed

theorem builders_totalSecs_witness:
  "speeds testProfile \<noteq> [] \<and>
   (\<exists>w. makeIntervals sampleFmt testProfile scenarioA = Inr w \<and>
        totalSecs w = 390 \<and> sum_list (map secs (segments w)) = 390) \<and>
   (\<exists>w. makeSteady sampleFmt testProfile scenarioD = Inr w \<and>
        totalSecs w = 1800 \<and> sum_list (map secs (segments w)) = 1800) \<and>
   (\<exists>w. makeProgression sampleFmt testProfile scenarioE = Inr w \<and>
        totalSecs w = 1800 \<and> sum_list (map secs (segments w)) = 1800)"
proof -
  have ne: "speeds testProfile \<noteq> []" by (simp add: testProfile_def)
  from builders_totalSecs [OF ne, of sampleFmt scenarioA scenarioD scenarioE]
  obtain w1 w2 w3 where
    w1: "makeIntervals sampleFmt testProfile scenarioA = Inr w1"
      "totalSecs w1 = sum_list (map secs (segments w1))" and
    w2: "makeSteady sampleFmt testProfile scenarioD = Inr w2"
      "totalSecs w2 = sum_list (map secs (segments w2))" and
    w3: "makeProgression sampleFmt testProfile scenarioE = Inr w3"
      "totalSecs w3 = sum_list (map secs (segments w3))"
    by blast
  have "totalSecs w1 = 390" using scenarioA_run w1(1) by simp
  moreover have "totalSecs w2 = 1800" using scenarioD_run w2(1) by simp
  moreover have "totalSecs w3 = 1800" using scenarioE_run w3(1) by simp
  ultimately show ?thesis using ne w1 w2 w3 by simp
qed

text \<open>
  C6. For every device profile whose speed list is empty and every options object, each
  of the three builders fails with the \<open>EmptyDomain\<close> error: the result is the error, not
  a workout.
\<close>

theorem builders_empty_speeds:
  assumes "speeds profile = []"
  shows "makeIntervals fmt profile iopts = Inl EmptyDomain \<and>
         makeSteady fmt profile sopts = Inl EmptyDomain \<and>
         makeProgression fmt profile popts = Inl EmptyDomain"
proof -
  have e: "sortSpeeds (speeds profile) = []" using assms by simp
  have "intervalsSegments fmt profile iopts = Inl EmptyDomain"
    by (simp add: intervalsSegments_def Let_def e)
  moreover have "steadySegments fmt profile sopts = Inl EmptyDomain"
    by (simp add: steadySegments_def Let_def e)
  moreover have "progressionSegments fmt profile popts = Inl EmptyDomain"
    by (simp add: progressionSegments_def progressionLadder_def Let_def e)
  ultimately show ?thesis
    by (simp add: makeIntervals_def makeSteady_def makeProgression_def)
qed

theorem builders_empty_speeds_witness:
  "speeds (testProfile\<lparr>speeds := []\<rparr>) = [] \<and>
   makeIntervals sampleFmt (testProfile\<lparr>speeds := []\<rparr>) scenarioA = Inl EmptyDomain \<and>
   makeSteady sampleFmt (testProfile\<lparr>speeds := []\<rparr>) scenarioD = Inl EmptyDomain \<and>
   makeProgression sampleFmt (testProfile\<lparr>speeds := []\<rparr>) scenarioE = Inl EmptyDomain"
  using builders_empty_speeds [of "testProfile\<lparr>speeds := []\<rparr>" sampleFmt scenarioA scenarioD scenarioE]
  by simp

text \<open>
  C2. For a device profile with a non-empty speed list and \<open>rampLimitPerChange = r\<close>:
  whatever raw plan \<open>applySafety\<close> is given, every adjacent pair of the list left by the
  ramp limiter, and every adjacent pair of the list returned after the merge pass,
  satisfies \<open>|speed[i+1] - speed[i]| \<le> r\<close> or \<open>speed[i+1] = speed[i]\<close>; each builder returns
  a workout, and the segments of that workout satisfy the same.
\<close>

theorem builders_ramp_limited:
  assumes "speeds profile \<noteq> []" and "rampLimitPerChange profile = Some r"
  shows "(\<forall>raw. \<exists>cs out.
            constrainAll (sortSpeeds (speeds profile)) (Some r) [] raw = Inr cs \<and>
            applySafety profile raw = Inr out \<and>
            (\<forall>i. Suc i < length cs \<longrightarrow>
               \<bar>speed (cs ! Suc i) - speed (cs ! i)\<bar> \<le> r \<or> speed (cs ! Suc i) = speed (cs ! i)) \<and>
            (\<forall>i. Suc i < length out \<longrightarrow>
               \<bar>speed (out ! Suc i) - speed (out ! i)\<bar> \<le> r \<or>
               speed (out ! Suc i) = speed (out ! i))) \<and>
         (\<exists>wi ws wp.
            makeIntervals fmt profile iopts = Inr wi \<and>
            makeSteady fmt profile sopts = Inr ws \<and>
            makeProgression fmt profile popts = Inr wp \<and>
            (\<forall>w\<in>{wi, ws, wp}. \<forall>i. Suc i < length (segments w) \<longrightarrow>
               \<bar>speed (segments w ! Suc i) - speed (segments w ! i)\<bar> \<le> r \<or>
               speed (segments w ! Suc i) = speed (segments w ! i)))"
proof -
  let ?Q = "\<lambda>a b. \<bar>speed b - speed a\<bar> \<le> r \<or> speed b = speed a"
  have pipe: "\<exists>cs out.
            constrainAll (sortSpeeds (speeds profile)) (Some r) [] raw = Inr cs \<and>
            applySafety profile raw = Inr out \<and>
            (\<forall>i. Suc i < length cs \<longrightarrow> ?Q (cs ! i) (cs ! Suc i)) \<and>
            (\<forall>i. Suc i < length out \<longrightarrow> ?Q (out ! i) (out ! Suc i))" for raw
    using applySafety_ramp [OF assms, of raw] successively_nth [of ?Q] by blast
  obtain wi ws wp where b: "makeIntervals fmt profile iopts = Inr wi"
    "makeSteady fmt profile sopts = Inr ws" "makeProgression fmt profile popts = Inr wp"
    using builders_return [OF assms(1)] by blast
  have "\<forall>i. Suc i < length (segments w) \<longrightarrow> ?Q (segments w ! i) (segments w ! Suc i)"
    if "w \<in> {wi, ws, wp}" for w
  proof -
    have "makeIntervals fmt profile iopts = Inr w \<or> makeSteady fmt profile sopts = Inr w \<or>
          makeProgression fmt profile popts = Inr w"
      using that b by auto
    then obtain raw where "applySafety profile raw = Inr (segments w)"
      by (rule builder_cases)
    then show ?thesis using pipe [of raw] by auto
  qed
  then show ?thesis using pipe b by blast
qed

theorem builders_ramp_limited_witness:
  "speeds testProfile \<noteq> [] \<and> rampLimitPerChange testProfile = Some 1 \<and>
   (\<exists>w. makeIntervals sampleFmt testProfile scenarioA = Inr w \<and>
        Suc 0 < length (segments w) \<and>
        speed (segments w ! 0) = 1.5 \<and> speed (segments w ! Suc 0) = 2.5 \<and>
        \<bar>speed (segments w ! Suc 0) - speed (segments w ! 0)\<bar> \<le> 1)"
proof -
  have ne: "speeds testProfile \<noteq> []" by (simp add: testProfile_def)
  have r: "rampLimitPerChange testProfile = Some 1" by (simp add: testProfile_def)
  from builders_ramp_limited [OF ne r, of sampleFmt scenarioA scenarioD scenarioE]
  obtain w where w: "makeIntervals sampleFmt testProfile scenarioA = Inr w"
    and adj: "\<forall>i. Suc i < length (segments w) \<longrightarrow>
               \<bar>speed (segments w ! Suc i) - speed (segments w ! i)\<bar> \<le> 1 \<or>
               speed (segments w ! Suc i) = speed (segments w ! i)"
    by auto
  have sp: "map speed (segments w) = [1.5, 2.5, 1.5, 2.5, 1.5, 2.5, 1.5, 1.5]"
    using scenarioA_run w by simp
  from arg_cong [OF sp, of length] have len: "Suc 0 < length (segments w)" by simp
  have s0: "speed (segments w ! 0) = 1.5" using nth_of_map_eq [OF sp, of 0] by simp
  have s1: "speed (segments w ! Suc 0) = 2.5" using nth_of_map_eq [OF sp, of "Suc 0"] by simp
  have "\<bar>speed (segments w ! Suc 0) - speed (segments w ! 0)\<bar> \<le> 1 \<or>
        speed (segments w ! Suc 0) = speed (segments w ! 0)"
    using adj len by blast
  then have "\<bar>speed (segments w ! Suc 0) - speed (segments w ! 0)\<bar> \<le> 1"
    using s0 s1 by simp
  then show ?thesis using ne r w len s0 s1 by blast
qed

text \<open>
  C4. For a device profile with a non-empty speed list and \<open>minSegmentSec = m\<close>, each
  builder returns a workout, and that workout has no two adjacent segments of equal speed
  that are both shorter than \<open>m\<close>.
\<close>

theorem builders_no_short_equal_pair:
  assumes "speeds profile \<noteq> []" and "minSegmentSec profile = Some m"
  shows "\<exists>wi ws wp.
           makeIntervals fmt profile iopts = Inr wi \<and>
           makeSteady fmt profile sopts = Inr ws \<and>
           makeProgression fmt profile popts = Inr wp \<and>
           (\<forall>w\<in>{wi, ws, wp}. \<forall>i. Suc i < length (segments w) \<longrightarrow>
              \<not> (speed (segments w ! i) = speed (segments w ! Suc i) \<and>
                 secs (segments w ! i) < m \<and> secs (segments w ! Suc i) < m))"
proof -
  let ?Q = "\<lambda>a b. speed a = speed b \<longrightarrow> m \<le> secs a"
  obtain wi ws wp where b: "makeIntervals fmt profile iopts = Inr wi"
    "makeSteady fmt profile sopts = Inr ws" "makeProgression fmt profile popts = Inr wp"
    using builders_return [OF assms(1)] by blast
  have "\<forall>i. Suc i < length (segments w) \<longrightarrow>
              \<not> (speed (segments w ! i) = speed (segments w ! Suc i) \<and>
                 secs (segments w ! i) < m \<and> secs (segments w ! Suc i) < m)"
    if "w \<in> {wi, ws, wp}" for w
  proof (intro allI impI)
    fix i assume i: "Suc i < length (segments w)"
    have "makeIntervals fmt profile iopts = Inr w \<or> makeSteady fmt profile sopts = Inr w \<or>
          makeProgression fmt profile popts = Inr w"
      using that b by auto
    then obtain raw where raw: "applySafety profile raw = Inr (segments w)"
      by (rule builder_cases)
    then obtain cs where out: "segments w = mergeAll m [] cs"
      using assms(2) by (auto elim: applySafety_unfold)
    have "successively ?Q (mergeAll m [] cs)" by (rule mergeAll_dwell) simp
    then have "?Q (segments w ! i) (segments w ! Suc i)"
      using out i successively_nth [of ?Q] by simp
    then show "\<not> (speed (segments w ! i) = speed (segments w ! Suc i) \<and>
                 secs (segments w ! i) < m \<and> secs (segments w ! Suc i) < m)"
      by auto
  qed
  then show ?thesis using b by blast
qed

theorem builders_no_short_equal_pair_witness:
  "speeds coarseProfile \<noteq> [] \<and> minSegmentSec coarseProfile = Some 30 \<and>
   (\<exists>w. makeSteady sampleFmt coarseProfile scenarioD = Inr w \<and>
        Suc 4 < length (segments w) \<and>
        speed (segments w ! 4) = speed (segments w ! Suc 4) \<and>
        secs (segments w ! 4) = 60 \<and> secs (segments w ! Suc 4) = 40 \<and>
        \<not> (speed (segments w ! 4) = speed (segments w ! Suc 4) \<and>
           secs (segments w ! 4) < 30 \<and> secs (segments w ! Suc 4) < 30))"
proof -
  have ne: "speeds coarseProfile \<noteq> []" by (simp add: coarseProfile_def)
  have m: "minSegmentSec coarseProfile = Some 30" by (simp add: coarseProfile_def)
  from builders_no_short_equal_pair [OF ne m, of sampleFmt scenarioA scenarioD scenarioE]
  obtain w where w: "makeSteady sampleFmt coarseProfile scenarioD = Inr w"
    and pairs: "\<forall>i. Suc i < length (segments w) \<longrightarrow>
              \<not> (speed (segments w ! i) = speed (segments w ! Suc i) \<and>
                 secs (segments w ! i) < 30 \<and> secs (segments w ! Suc i) < 30)"
    by auto
  have se: "map secs (segments w) = [300, 980, 60, 60, 60, 40, 300]"
    and sp: "map speed (segments w) = [2, 2, 2, 2, 2, 2, 2]"
    using coarseProfile_run w by simp_all
  from arg_cong [OF sp, of length] have len: "Suc 4 < length (segments w)" by simp
  have eq: "speed (segments w ! 4) = speed (segments w ! Suc 4)"
    using nth_of_map_eq [OF sp, of 4] nth_of_map_eq [OF sp, of "Suc 4"] by simp
  have s4: "secs (segments w ! 4) = 60" using nth_of_map_eq [OF se, of 4] by simp
  have s5: "secs (segments w ! Suc 4) = 40" using nth_of_map_eq [OF se, of "Suc 4"] by simp
  from pairs len
  have "\<not> (speed (segments w ! 4) = speed (segments w ! Suc 4) \<and>
           secs (segments w ! 4) < 30 \<and> secs (segments w ! Suc 4) < 30)"
    by blast
  then show ?thesis using ne m w len eq s4 s5 by blast
qed

text \<open>
  C10. In the first loop of \<open>applySafety\<close>, for a non-empty speed list and a ramp limit
  \<open>r \<ge> 0\<close>, whatever the raw plan: the loop returns a constrained list with one segment
  for each raw segment, segment \<open>i + 1\<close> of it being the loop body's result on the
  segments emitted before it, the last of which is segment \<open>i\<close>. The speed of segment
  \<open>i\<close> is itself a member of the candidate set computed from it, so that set is never
  empty and the branch that re-emits the previous speed for want of a candidate is not
  reached; and every adjacent pair of the constrained list satisfies
  \<open>|speed[i+1] - speed[i]| \<le> r\<close>, with no separate case of equal speeds.
\<close>

theorem ramp_fallback_unreachable:
  assumes "speeds profile \<noteq> []"
    and "rampLimitPerChange profile = Some r" and "0 \<le> r"
  shows "\<exists>cs. constrainAll (sortSpeeds (speeds profile)) (rampLimitPerChange profile) [] raw
                = Inr cs \<and>
           length cs = length raw \<and>
           (\<forall>i. Suc i < length cs \<longrightarrow>
              constrainSegment (sortSpeeds (speeds profile)) (Some r) (take (Suc i) cs)
                (raw ! Suc i) = Inr (cs ! Suc i) \<and>
              last (take (Suc i) cs) = cs ! i \<and>
              speed (cs ! i)
                \<in> set (rampCandidates (sortSpeeds (speeds profile)) (speed (cs ! i)) r) \<and>
              rampCandidates (sortSpeeds (speeds profile)) (speed (cs ! i)) r \<noteq> [] \<and>
              \<bar>speed (cs ! Suc i) - speed (cs ! i)\<bar> \<le> r)"
proof -
  let ?allowed = "sortSpeeds (speeds profile)"
  have "?allowed \<noteq> []" using assms(1) by simp
  then obtain cs where cs: "constrainAll ?allowed (Some r) [] raw = Inr cs"
    using constrainAll_Inr by blast
  have len: "length cs = length raw" using constrainAll_steps [OF cs] by simp
  have "constrainSegment ?allowed (Some r) (take (Suc i) cs) (raw ! Suc i) = Inr (cs ! Suc i) \<and>
        last (take (Suc i) cs) = cs ! i \<and>
        speed (cs ! i) \<in> set (rampCandidates ?allowed (speed (cs ! i)) r) \<and>
        rampCandidates ?allowed (speed (cs ! i)) r \<noteq> [] \<and>
        \<bar>speed (cs ! Suc i) - speed (cs ! i)\<bar> \<le> r"
    if i: "Suc i < length cs" for i
  proof -
    have step: "constrainSegment ?allowed (Some r) (take (Suc i) cs) (raw ! Suc i)
                  = Inr (cs ! Suc i)"
      using constrainAll_steps [OF cs] i len by simp
    have ne: "take (Suc i) cs \<noteq> []" using i by auto
    have lst: "last (take (Suc i) cs) = cs ! i"
      using i by (simp add: take_Suc_conv_app_nth)
    have "cs ! i \<in> set cs" using i by simp
    then have "speed (cs ! i) \<in> set ?allowed" using constrainAll_allowed [OF cs] by blast
    then have mem: "speed (cs ! i) \<in> set (rampCandidates ?allowed (speed (cs ! i)) r)"
      using assms(3) by (simp add: rampCandidates_set)
    then have cne: "rampCandidates ?allowed (speed (cs ! i)) r \<noteq> []" by auto
    have "\<bar>speed (cs ! Suc i) - speed (cs ! i)\<bar> \<le> r"
      using step
    proof (cases rule: constrainSegment_cases)
      case base
      then show ?thesis using ne lst assms(3) by auto
    next
      case (best r')
      then show ?thesis using lst by (simp add: rampCandidates_set)
    next
      case (stall r')
      then show ?thesis using cne lst by simp
    qed
    then show ?thesis using step lst mem cne by blast
  qed
  then show ?thesis using cs len assms(2) by auto
qed

theorem ramp_fallback_unreachable_witness:
  "speeds rampProfile \<noteq> [] \<and> rampLimitPerChange rampProfile = Some 0.2 \<and> (0::real) \<le> 0.2 \<and>
   (\<exists>raw cs. intervalsSegments sampleFmt rampProfile scenarioB = Inr raw \<and>
      constrainAll (sortSpeeds (speeds rampProfile)) (rampLimitPerChange rampProfile) [] raw
        = Inr cs \<and>
      Suc 0 < length cs \<and> speed (raw ! Suc 0) = Some 3 \<and> speed (cs ! 0) = 1 \<and>
      rampCandidates (sortSpeeds (speeds rampProfile)) (speed (cs ! 0)) 0.2 \<noteq> [] \<and>
      \<bar>speed (cs ! Suc 0) - speed (cs ! 0)\<bar> \<le> 0.2)"
proof -
  have ne: "speeds rampProfile \<noteq> []" by (simp add: rampProfile_def)
  have r: "rampLimitPerChange rampProfile = Some 0.2" by (simp add: rampProfile_def)
  have pos: "(0::real) \<le> 0.2" by simp
  obtain raw cs where raw: "intervalsSegments sampleFmt rampProfile scenarioB = Inr raw"
    and cs: "constrainAll (sortSpeeds (speeds rampProfile)) (rampLimitPerChange rampProfile) []
               raw = Inr cs"
    and rsp: "map speed raw = [Some 1, Some 3, Some 3]" and csp: "map speed cs = [1, 1, 1]"
    using rampProfile_run by (auto split: sum.splits)
  from arg_cong [OF csp, of length] have len: "Suc 0 < length cs" by simp
  have r1: "speed (raw ! Suc 0) = Some 3" using nth_of_map_eq [OF rsp, of "Suc 0"] by simp
  have c0: "speed (cs ! 0) = 1" using nth_of_map_eq [OF csp, of 0] by simp
  from ramp_fallback_unreachable [OF ne r pos, of raw] cs len
  have "rampCandidates (sortSpeeds (speeds rampProfile)) (speed (cs ! 0)) 0.2 \<noteq> [] \<and>
        \<bar>speed (cs ! Suc 0) - speed (cs ! 0)\<bar> \<le> 0.2"
    by auto
  then show ?thesis using ne r pos raw cs len r1 c0 by blast
qed

text \<open>
  C8, as amended. For every device profile with a non-empty speed list and every options
  object, the ladder built by \<open>makeProgression\<close> has one entry for each iteration of its
  loop and is a non-decreasing run of device speeds, \<open>vs[i] \<le> vs[i+1]\<close> for every \<open>i\<close>,
  followed only by \<open>undefined\<close> entries, the reads past the end of \<open>usableSpeeds\<close>. When
  \<open>steps\<close> is an integer (or left out) no entry is \<open>undefined\<close>, and the whole ladder is
  non-decreasing. The segments of the raw plan whose cue starts with \<^verbatim>\<open>Step\<close> carry the
  ladder's entries in order.
\<close>

theorem progression_ladder_nondecreasing:
  assumes "speeds profile \<noteq> []"
  shows "\<exists>warm ladder raw vs m.
           progressionLadder profile opts = Inr (warm, ladder) \<and>
           length ladder = nat \<lceil>max 1 (orDefault (steps opts) 4)\<rceil> \<and>
           ladder = map Some vs @ replicate m None \<and>
           (\<forall>i. Suc i < length vs \<longrightarrow> vs ! i \<le> vs ! Suc i) \<and>
           set vs \<subseteq> set (speeds profile) \<and>
           (orDefault (steps opts) 4 \<in> \<int> \<longrightarrow> m = 0) \<and>
           progressionSegments fmt profile opts = Inr raw \<and>
           map speed (filter isStep raw) = ladder"
proof -
  let ?sp = "sortSpeeds (speeds profile)"
  let ?sc = "max 1 (orDefault (steps opts) 4)"
  have ne: "?sp \<noteq> []" using assms by simp
  obtain warm where warm: "quantizeDown ?sp (warmTargetOf ?sp) = Inr warm"
    using quantizeDown_Inr [OF ne] by blast
  obtain topSpeed where top:
    "quantizeDown ?sp (clamp (lastSpeed ?sp * orDefault (topIntensity opts) 0.8) warm
        (lastSpeed ?sp)) = Inr topSpeed"
    using quantizeDown_Inr [OF ne] by blast
  let ?usable = "filter (\<lambda>v. v \<ge> warm \<and> v \<le> topSpeed) ?sp"
  let ?ladder = "buildLadder ?usable warm ?sc"
  have lad: "progressionLadder profile opts = Inr (warm, ?ladder)"
    using warm top by (simp add: progressionLadder_def Let_def)
  have sc: "1 \<le> ?sc" by simp
  have su: "sorted ?usable" by (intro sorted_wrt_filter) simp
  obtain vs m where shape: "?ladder = map Some vs @ replicate m None"
    and srt: "sorted vs" and sub0: "set vs \<subseteq> insert warm (set ?usable)"
    and full0: "?sc \<in> \<int> \<longrightarrow> m = 0"
    using buildLadder_shape [OF su sc, of warm] by blast
  have nondec: "\<forall>i. Suc i < length vs \<longrightarrow> vs ! i \<le> vs ! Suc i"
    using srt by (simp add: sorted_iff_nth_Suc)
  have "warm \<in> set (speeds profile)" using quantizeDown_mem [OF warm] by simp
  then have sub: "set vs \<subseteq> set (speeds profile)" using sub0 by auto
  have "?sc \<in> \<int>" if "orDefault (steps opts) 4 \<in> \<int>"
    using that by (simp add: max_def)
  then have full: "orDefault (steps opts) 4 \<in> \<int> \<longrightarrow> m = 0" using full0 by blast
  have w: "\<not> isStep (mkSegment a v (CHR ''W'' # x))" for a v x
    by (simp add: isStep_def mkSegment_def startsWith_def)
  have c: "\<not> isStep (mkSegment a v (CHR ''C'' # x))" for a v x
    by (simp add: isStep_def mkSegment_def startsWith_def)
  obtain raw where raw: "progressionSegments fmt profile opts = Inr raw"
    and steps: "map speed (filter isStep raw) = ?ladder"
    using lad
    by (simp add: progressionSegments_def Let_def w c stepSegments_speeds stepSegments_isStep)
  have len: "length ?ladder = nat \<lceil>?sc\<rceil>" by simp
  show ?thesis
    using lad len shape nondec sub full raw steps
    by (intro exI [of _ warm] exI [of _ ?ladder] exI [of _ raw] exI [of _ vs] exI [of _ m] conjI)
qed

theorem progression_ladder_nondecreasing_witness:
  "speeds testProfile \<noteq> [] \<and> orDefault (steps scenarioE) 4 \<in> \<int> \<and>
   progressionLadder testProfile scenarioE
     = Inr (1.5, map Some [1.5, 2, 2, 2.5, 2.5] @ replicate 0 None) \<and>
   Suc 1 < length [1.5, 2, 2, 2.5, 2.5 :: real] \<and>
   [1.5, 2, 2, 2.5, 2.5 :: real] ! 1 \<le> [1.5, 2, 2, 2.5, 2.5] ! Suc 1 \<and>
   (\<exists>raw. progressionSegments sampleFmt testProfile scenarioE = Inr raw \<and>
          map speed (filter isStep raw) = map Some [1.5, 2, 2, 2.5, 2.5])"
proof -
  have ne: "speeds testProfile \<noteq> []" by (simp add: testProfile_def)
  have int: "orDefault (steps scenarioE) 4 \<in> \<int>" by (simp add: scenarioE_def orDefault_def)
  from progression_ladder_nondecreasing [OF ne, of scenarioE sampleFmt]
  obtain warm ladder raw vs m where
    l: "progressionLadder testProfile scenarioE = Inr (warm, ladder)" and
    s: "ladder = map Some vs @ replicate m None" and
    n: "\<forall>i. Suc i < length vs \<longrightarrow> vs ! i \<le> vs ! Suc i" and
    f: "orDefault (steps scenarioE) 4 \<in> \<int> \<longrightarrow> m = 0" and
    r: "progressionSegments sampleFmt testProfile scenarioE = Inr raw"
       "map speed (filter isStep raw) = ladder"
    by blast
  have m0: "m = 0" using f int by (rule mp)
  have eq: "ladder = map Some [1.5, 2, 2, 2.5, 2.5]" using l scenarioE_ladder by simp
  then have "map Some vs = map Some [1.5, 2, 2, 2.5, 2.5]" using s m0 by simp
  then have vs: "vs = [1.5, 2, 2, 2.5, 2.5]" by (rule map_injective) simp
  have len: "Suc 1 < length [1.5, 2, 2, 2.5, 2.5 :: real]" by simp
  from n vs len have le: "[1.5, 2, 2, 2.5, 2.5 :: real] ! 1 \<le> [1.5, 2, 2, 2.5, 2.5] ! Suc 1"
    by metis
  have lad: "progressionLadder testProfile scenarioE
     = Inr (1.5, map Some [1.5, 2, 2, 2.5, 2.5] @ replicate 0 None)"
    using scenarioE_ladder by simp
  have ex: "\<exists>raw. progressionSegments sampleFmt testProfile scenarioE = Inr raw \<and>
          map speed (filter isStep raw) = map Some [1.5, 2, 2, 2.5, 2.5]"
    using r eq by auto
  show ?thesis using ne int lad len le ex by (intro conjI)
qed

text \<open>
  C8 as the specification states it fails at \<open>steps = 2.5\<close> on the test profile: the loop
  runs for \<open>i = 0, 1, 2\<close>, the third index is \<open>round (2 / 1.5 * 2) = 3\<close>, past the end of
  the three usable speeds, and the ladder is \<open>1.5, 2, undefined\<close>. \<open>applySafety\<close>
  quantizes the undefined target to the lowest speed: the step segments of the returned
  workout run at \<open>1.5, 2, 1\<close>.
\<close>

theorem progression_ladder_counterexample:
  "speeds testProfile \<noteq> [] \<and> steps halfSteps = Some 2.5 \<and>
   progressionLadder testProfile halfSteps = Inr (1.5, [Some 1.5, Some 2, None]) \<and>
   makeProgression sampleFmt testProfile halfSteps = Inr halfStepsWorkout \<and>
   map speed (filter isStep (segments halfStepsWorkout)) = [1.5, 2, 1]"
  by code_simp





end
